theory Spec2Isabelle
  imports Complex_Main
begin

section \<open>The streaming example parser (shogun/io/streaming/InputParser.h)\<close>

text \<open>
  \<^verbatim>\<open>InputParser<T>\<close> runs a worker thread that reads examples from a
  \<^verbatim>\<open>StreamingFile\<close> into a ring of example slots, and hands them to a consumer
  through \<^verbatim>\<open>get_next_example\<close>.  The embedding keeps the member names of the class.

  \<^item> The object is a record; a member function takes the object and returns the
    updated object.  Reference parameters (\<^verbatim>\<open>T* &fv, int32_t &length, float64_t &label\<close>)
    are passed in by value and handed back in the result.
  \<^item> A call either returns (\<open>Done\<close>), waits on a condition or a join (\<open>Blocked\<close>),
    or leaves defined behaviour (\<open>Failed\<close>: an exception thrown by \<^verbatim>\<open>error(...)\<close>,
    \<^verbatim>\<open>std::terminate\<close>, a dereference of a pointer that points to no example, a signed
    overflow of an \<^verbatim>\<open>int32_t\<close> counter).
  \<^item> The two threads are interleaved at the granularity of the source's critical
    sections: every region guarded by \<^verbatim>\<open>examples_state_lock\<close> is one atomic step, so
    the mutex is free between any two steps and is not a field of the record.
  \<^item> \<^verbatim>\<open>float64_t\<close> labels are only stored and copied, never computed with; they are
    read as \<open>real\<close>.  \<^verbatim>\<open>int32_t\<close> values are read as \<open>int\<close>, and the increment of a
    counter that holds \<^verbatim>\<open>INT32_MAX\<close> is a failure of the model.
\<close>

subsection \<open>Results of a call\<close>

datatype failure =
    ShogunException      \<comment> \<open>thrown by \<^verbatim>\<open>error(...)\<close>, reaches the caller\<close>
  | StdTerminate         \<comment> \<open>\<^verbatim>\<open>std::terminate\<close>: move-assignment to a joinable \<^verbatim>\<open>std::thread\<close>\<close>
  | InvalidPointer       \<comment> \<open>dereference of a null or uninitialised pointer\<close>
  | SignedOverflow       \<comment> \<open>\<^verbatim>\<open>++\<close> on an \<^verbatim>\<open>int32_t\<close> that holds \<^verbatim>\<open>INT32_MAX\<close>\<close>
  | ContractViolation    \<comment> \<open>a ring operation used outside its contract\<close>

datatype 'a outcome = Done 'a | Blocked | Failed failure

definition INT32_MAX :: int where
  "INT32_MAX = 2147483647"

text \<open>\<^verbatim>\<open>x++\<close> on an \<^verbatim>\<open>int32_t\<close>.\<close>

definition incr_int32 :: "int \<Rightarrow> int outcome" where
  "incr_int32 x = (if x = INT32_MAX then Failed SignedOverflow else Done (x + 1))"

subsection \<open>Examples and the ring of slots\<close>

datatype E_EXAMPLE_TYPE = E_LABELLED | E_UNLABELLED

text \<open>
  \<^verbatim>\<open>Example<T>\<close>: the fields the parser reads and writes (\<^verbatim>\<open>fv\<close>, \<^verbatim>\<open>length\<close>,
  \<^verbatim>\<open>label\<close>).  A \<^verbatim>\<open>T*\<close> is \<open>None\<close> for \<^verbatim>\<open>NULL\<close>, or the vector it points to.
\<close>

record 't Example =
  fv :: "'t list option"
  length_ex :: int
  label :: real

text \<open>
  An \<^verbatim>\<open>Example<T>*\<close>: uninitialised, \<^verbatim>\<open>NULL\<close>, or the address of a slot of the ring
  (its index).
\<close>

datatype example_ptr = Uninitialised | Null | Slot nat

text \<open>
  Modelled from the spec: the ring \<^verbatim>\<open>ParseBuffer<T>\<close> (shogun/io/streaming/ParseBuffer.h
  is not among the sources).  A slot is an example with a state tag; the ring is a
  fixed array of slots with two monotonic cursors, used modulo the capacity.  An
  operation that waits returns \<open>None\<close>.
\<close>

datatype slot_state = EMPTY | WRITING | READY | READING

record 't slot = "'t Example" +
  state :: slot_state

record 't ParseBuffer =
  slots :: "'t slot list"
  write_idx :: nat
  read_idx :: nat
  free_vectors_on_destruct :: bool

text \<open>Modelled from the spec: \<^verbatim>\<open>init(capacity)\<close>, all slots \<open>EMPTY\<close>, cursors at 0.\<close>

definition ParseBuffer_init :: "nat \<Rightarrow> 't ParseBuffer" where
  "ParseBuffer_init capacity =
     \<lparr>slots = replicate capacity \<lparr>fv = None, length_ex = 0, label = 0, state = EMPTY\<rparr>,
      write_idx = 0, read_idx = 0, free_vectors_on_destruct = False\<rparr>"

text \<open>Modelled from the spec: \<^verbatim>\<open>init_vector\<close> initialises the slots' storage.\<close>

definition init_vector :: "'t ParseBuffer \<Rightarrow> 't ParseBuffer" where
  "init_vector r = r\<lparr>slots := map (\<lambda>s. s\<lparr>fv := Some []\<rparr>) (slots r)\<rparr>"

text \<open>
  Modelled from the spec: \<^verbatim>\<open>get_free_example\<close> waits until the slot at the write
  cursor is \<open>EMPTY\<close>, marks it \<open>WRITING\<close> and returns its handle.
\<close>

definition get_free_example :: "'t ParseBuffer \<Rightarrow> (nat \<times> 't ParseBuffer) option" where
  "get_free_example r =
     (let i = write_idx r mod length (slots r) in
      if i < length (slots r) \<and> state (slots r ! i) = EMPTY
      then Some (i, r\<lparr>slots := (slots r)[i := (slots r ! i)\<lparr>state := WRITING\<rparr>]\<rparr>)
      else None)"

text \<open>
  Modelled from the spec: \<^verbatim>\<open>copy_example(slot)\<close> stamps the slot \<open>READY\<close> and advances
  the write cursor.
\<close>

definition copy_example :: "'t ParseBuffer \<Rightarrow> nat \<Rightarrow> 't ParseBuffer" where
  "copy_example r i =
     (if i < length (slots r)
      then r\<lparr>slots := (slots r)[i := (slots r ! i)\<lparr>state := READY\<rparr>],
             write_idx := write_idx r + 1\<rparr>
      else r\<lparr>write_idx := write_idx r + 1\<rparr>)"

text \<open>
  Modelled from the spec: \<^verbatim>\<open>get_unused_example\<close> waits until the slot at the read
  cursor is \<open>READY\<close>, marks it \<open>READING\<close> and returns its handle.
\<close>

definition get_unused_example :: "'t ParseBuffer \<Rightarrow> (nat \<times> 't ParseBuffer) option" where
  "get_unused_example r =
     (let i = read_idx r mod length (slots r) in
      if i < length (slots r) \<and> state (slots r ! i) = READY
      then Some (i, r\<lparr>slots := (slots r)[i := (slots r ! i)\<lparr>state := READING\<rparr>]\<rparr>)
      else None)"

text \<open>
  Modelled from the spec: \<^verbatim>\<open>finalize_example(free_vector)\<close> returns the slot being read
  to \<open>EMPTY\<close>, releases its vector when asked to, and advances the read cursor.  Without
  a slot being read the call is outside the contract (\<open>None\<close>).
\<close>

definition ring_finalize_example :: "'t ParseBuffer \<Rightarrow> bool \<Rightarrow> 't ParseBuffer option" where
  "ring_finalize_example r free_vector =
     (let i = read_idx r mod length (slots r) in
      if i < length (slots r) \<and> state (slots r ! i) = READING
      then Some (r\<lparr>slots := (slots r)[i := (slots r ! i)
                      \<lparr>fv := (if free_vector then None else fv (slots r ! i)), state := EMPTY\<rparr>],
                   read_idx := read_idx r + 1\<rparr>)
      else None)"

text \<open>Modelled from the spec: the free-on-destruct policy bit of the ring.\<close>

definition ring_set_free_vectors_on_destruct :: "'t ParseBuffer \<Rightarrow> bool \<Rightarrow> 't ParseBuffer" where
  "ring_set_free_vectors_on_destruct r destroy = r\<lparr>free_vectors_on_destruct := destroy\<rparr>"

subsection \<open>The parse thread\<close>

text \<open>
  Where the worker stands in \<^verbatim>\<open>main_parse_loop\<close>.  Each position is the start of a
  stretch of the loop body that runs as one step: the stretches are cut where the source
  takes or releases \<^verbatim>\<open>examples_state_lock\<close>, or calls into the ring (which has its own
  lock).
\<close>

datatype worker_pc =
    W_while      \<comment> \<open>line 510: \<^verbatim>\<open>while (keep_running.load(...))\<close>\<close>
  | W_check      \<comment> \<open>lines 512-518: under the lock, leave if \<^verbatim>\<open>parsing_done\<close>\<close>
  | W_get_free   \<comment> \<open>lines 520-523: claim a free slot, load \<^verbatim>\<open>current_*\<close>\<close>
  | W_read       \<comment> \<open>lines 525-530: read from the source, test \<^verbatim>\<open>current_len < 0\<close>\<close>
  | W_eof        \<comment> \<open>lines 532-535: under the lock, set \<^verbatim>\<open>parsing_done\<close>, notify, return\<close>
  | W_publish    \<comment> \<open>lines 538-542: write the slot back, \<^verbatim>\<open>copy_example\<close>\<close>
  | W_count      \<comment> \<open>lines 543-545: under the lock, count the example, notify\<close>
  | W_returned   \<comment> \<open>\<^verbatim>\<open>main_parse_loop\<close> has returned\<close>

text \<open>
  A \<^verbatim>\<open>std::thread\<close> handle: not joinable (default-constructed or joined), or joinable
  with the position of the thread it stands for.
\<close>

datatype thread = NoThread | Thread worker_pc

definition joinable :: "thread \<Rightarrow> bool" where
  "joinable t = (case t of NoThread \<Rightarrow> False | Thread pc \<Rightarrow> True)"

text \<open>\<^verbatim>\<open>t.join()\<close> waits until the thread has returned; the handle is then not joinable.\<close>

definition join :: "thread \<Rightarrow> thread outcome" where
  "join t = (case t of
       NoThread \<Rightarrow> Failed ContractViolation
     | Thread pc \<Rightarrow> (if pc = W_returned then Done NoThread else Blocked))"

text \<open>
  \<^verbatim>\<open>lhs = std::thread(...)\<close>: the new thread exists before the move-assignment, which
  calls \<^verbatim>\<open>std::terminate\<close> when \<^verbatim>\<open>lhs\<close> is still joinable.
\<close>

definition thread_move_assign :: "thread \<Rightarrow> thread \<Rightarrow> thread outcome" where
  "thread_move_assign lhs new_thread =
     (if joinable lhs then Failed StdTerminate else Done new_thread)"

subsection \<open>The parser object\<close>

text \<open>
  The members of \<^verbatim>\<open>InputParser<T>\<close>, in the order of the class.  \<open>'s\<close> is the state of
  the \<^verbatim>\<open>StreamingFile\<close> (an external collaborator); the two pointers to member functions
  are functions on that state and on the values of their reference parameters.
  \<^verbatim>\<open>examples_state_changed\<close> counts the calls of \<^verbatim>\<open>notify_one\<close>.
\<close>

record ('s, 't) InputParser =
  parsing_done :: bool
  reading_done :: bool
  example_type :: E_EXAMPLE_TYPE
  read_vector :: "'s \<Rightarrow> 't list option \<times> int \<Rightarrow> ('t list option \<times> int) \<times> 's"
  read_vector_and_label ::
    "'s \<Rightarrow> 't list option \<times> int \<times> real \<Rightarrow> ('t list option \<times> int \<times> real) \<times> 's"
  input_source :: 's
  parse_thread :: thread
  examples_ring :: "'t ParseBuffer option"
  number_of_features :: int
  number_of_vectors_parsed :: int
  number_of_vectors_read :: int
  current_example :: example_ptr
  current_feature_vector :: "'t list option"
  current_label :: real
  current_len :: int
  free_after_release :: bool
  ring_size :: int
  examples_state_changed :: nat
  keep_running :: bool

definition notify_one :: "('s, 't) InputParser \<Rightarrow> ('s, 't) InputParser" where
  "notify_one p = p\<lparr>examples_state_changed := examples_state_changed p + 1\<rparr>"

definition set_read_vector ::
  "('s, 't) InputParser \<Rightarrow> ('s \<Rightarrow> 't list option \<times> int \<Rightarrow> ('t list option \<times> int) \<times> 's)
     \<Rightarrow> ('s, 't) InputParser" where
  "set_read_vector p func_ptr = p\<lparr>read_vector := func_ptr\<rparr>"

definition set_read_vector_and_label ::
  "('s, 't) InputParser
     \<Rightarrow> ('s \<Rightarrow> 't list option \<times> int \<times> real \<Rightarrow> ('t list option \<times> int \<times> real) \<times> 's)
     \<Rightarrow> ('s, 't) InputParser" where
  "set_read_vector_and_label p func_ptr = p\<lparr>read_vector_and_label := func_ptr\<rparr>"

text \<open>
  The constructor, on the object's memory as it finds it: the members it does not
  assign keep whatever they hold, the \<^verbatim>\<open>std::thread\<close> member is default-constructed.
\<close>

definition InputParser_ctor :: "('s, 't) InputParser \<Rightarrow> ('s, 't) InputParser" where
  "InputParser_ctor p =
     p\<lparr>parse_thread := NoThread, examples_ring := None,
       parsing_done := True, reading_done := True, keep_running := False\<rparr>"

definition init ::
  "('s, 't) InputParser \<Rightarrow> 's \<Rightarrow> bool \<Rightarrow> int \<Rightarrow> ('s, 't) InputParser" where
  "init p input_file is_labelled sz =
     p\<lparr>input_source := input_file,
       example_type := (if is_labelled then E_LABELLED else E_UNLABELLED),
       examples_ring := Some (ParseBuffer_init (nat sz)),
       parsing_done := False,
       reading_done := False,
       number_of_vectors_parsed := 0,
       number_of_vectors_read := 0,
       current_len := - 1,
       current_label := - 1,
       current_feature_vector := None,
       free_after_release := True,
       ring_size := sz\<rparr>"

definition set_free_vector_after_release ::
  "('s, 't) InputParser \<Rightarrow> bool \<Rightarrow> ('s, 't) InputParser" where
  "set_free_vector_after_release p free_vec = p\<lparr>free_after_release := free_vec\<rparr>"

definition set_free_vectors_on_destruct ::
  "('s, 't) InputParser \<Rightarrow> bool \<Rightarrow> ('s, 't) InputParser outcome" where
  "set_free_vectors_on_destruct p destroy =
     (case examples_ring p of
        None \<Rightarrow> Failed InvalidPointer
      | Some r \<Rightarrow> Done (p\<lparr>examples_ring := Some (ring_set_free_vectors_on_destruct r destroy)\<rparr>))"

definition is_running :: "('s, 't) InputParser \<Rightarrow> bool" where
  "is_running p =
     (if parsing_done p
      then (if reading_done p then False else True)
      else False)"

text \<open>
  \<^verbatim>\<open>error(...)\<close> throws; nothing after it runs.  Otherwise the ring's storage is
  initialised, \<^verbatim>\<open>keep_running\<close> is set, and a new thread is assigned to
  \<^verbatim>\<open>parse_thread\<close>; the thread starts at the head of \<^verbatim>\<open>main_parse_loop\<close>.
\<close>

definition start_parser :: "('s, 't) InputParser \<Rightarrow> ('s, 't) InputParser outcome" where
  "start_parser p =
     (if is_running p then Failed ShogunException
      else
        let p1 = (case examples_ring p of
                    None \<Rightarrow> p
                  | Some r \<Rightarrow> p\<lparr>examples_ring := Some (init_vector r)\<rparr>);
            p2 = p1\<lparr>keep_running := True\<rparr>
        in case thread_move_assign (parse_thread p2) (Thread W_while) of
             Done t \<Rightarrow> Done (p2\<lparr>parse_thread := t\<rparr>)
           | Blocked \<Rightarrow> Blocked
           | Failed f \<Rightarrow> Failed f)"

text \<open>
  The two readers return the function's result, the values left in the reference
  parameters, and the object with the source advanced.
\<close>

definition get_vector_and_label ::
  "('s, 't) InputParser \<Rightarrow> 't list option \<times> int \<times> real
     \<Rightarrow> int \<times> ('t list option \<times> int \<times> real) \<times> ('s, 't) InputParser" where
  "get_vector_and_label p args =
     (case read_vector_and_label p (input_source p) args of
        ((feature_vector, len, lab), src) \<Rightarrow>
          (if len < 1 then 0 else 1, (feature_vector, len, lab), p\<lparr>input_source := src\<rparr>))"

definition get_vector_only ::
  "('s, 't) InputParser \<Rightarrow> 't list option \<times> int
     \<Rightarrow> int \<times> ('t list option \<times> int) \<times> ('s, 't) InputParser" where
  "get_vector_only p args =
     (case read_vector p (input_source p) args of
        ((feature_vector, len), src) \<Rightarrow>
          (if len < 1 then 0 else 1, (feature_vector, len), p\<lparr>input_source := src\<rparr>))"

definition copy_example_into_buffer ::
  "('s, 't) InputParser \<Rightarrow> nat \<Rightarrow> ('s, 't) InputParser outcome" where
  "copy_example_into_buffer p ex =
     (case examples_ring p of
        None \<Rightarrow> Failed InvalidPointer
      | Some r \<Rightarrow> Done (p\<lparr>examples_ring := Some (copy_example r ex)\<rparr>))"

subsection \<open>The worker: \<^verbatim>\<open>main_parse_loop\<close>\<close>

definition goto :: "worker_pc \<Rightarrow> ('s, 't) InputParser \<Rightarrow> ('s, 't) InputParser" where
  "goto pc p = p\<lparr>parse_thread := Thread pc\<rparr>"

text \<open>
  Lines 525-528: the configured read, into \<^verbatim>\<open>current_feature_vector\<close>,
  \<^verbatim>\<open>current_len\<close> and \<^verbatim>\<open>current_label\<close>.  The value the reader returns is dropped,
  as the source drops it.
\<close>

definition read_example :: "('s, 't) InputParser \<Rightarrow> ('s, 't) InputParser" where
  "read_example p =
     (if example_type p = E_LABELLED
      then (case get_vector_and_label p
                   (current_feature_vector p, current_len p, current_label p) of
              (ret, (feature_vector, len, lab), p') \<Rightarrow>
                p'\<lparr>current_feature_vector := feature_vector, current_len := len,
                   current_label := lab\<rparr>)
      else (case get_vector_only p (current_feature_vector p, current_len p) of
              (ret, (feature_vector, len), p') \<Rightarrow>
                p'\<lparr>current_feature_vector := feature_vector, current_len := len\<rparr>))"

text \<open>
  The length the configured read of the source hands back when the worker calls it in
  state \<open>p\<close> (the value \<^verbatim>\<open>current_len\<close> holds after lines 525-528).
\<close>

definition returned_length :: "('s, 't) InputParser \<Rightarrow> int" where
  "returned_length p =
     (if example_type p = E_LABELLED
      then (case read_vector_and_label p (input_source p)
                   (current_feature_vector p, current_len p, current_label p) of
              ((feature_vector, len, lab), src) \<Rightarrow> len)
      else (case read_vector p (input_source p) (current_feature_vector p, current_len p) of
              ((feature_vector, len), src) \<Rightarrow> len))"

text \<open>Lines 538-540: the slot \<^verbatim>\<open>current_example\<close> points to takes the values read.\<close>

definition write_back :: "('s, 't) InputParser \<Rightarrow> 't ParseBuffer \<Rightarrow> nat \<Rightarrow> 't ParseBuffer" where
  "write_back p r i =
     r\<lparr>slots := (slots r)[i := (slots r ! i)
          \<lparr>fv := current_feature_vector p, length_ex := current_len p,
           label := current_label p\<rparr>]\<rparr>"

fun main_parse_loop :: "worker_pc \<Rightarrow> ('s, 't) InputParser \<Rightarrow> ('s, 't) InputParser outcome" where
  "main_parse_loop W_while p =
     (if keep_running p then Done (goto W_check p) else Done (goto W_returned p))"
| "main_parse_loop W_check p =
     (if parsing_done p then Done (goto W_returned p) else Done (goto W_get_free p))"
| "main_parse_loop W_get_free p =
     (case examples_ring p of
        None \<Rightarrow> Failed InvalidPointer
      | Some r \<Rightarrow>
          (case get_free_example r of
             None \<Rightarrow> Blocked
           | Some (i, r') \<Rightarrow>
               Done (goto W_read
                 (p\<lparr>examples_ring := Some r',
                    current_example := Slot i,
                    current_feature_vector := fv (slots r' ! i),
                    current_len := length_ex (slots r' ! i),
                    current_label := label (slots r' ! i)\<rparr>))))"
| "main_parse_loop W_read p =
     (let p' = read_example p in
      if current_len p' < 0 then Done (goto W_eof p') else Done (goto W_publish p'))"
| "main_parse_loop W_eof p =
     Done (goto W_returned (notify_one (p\<lparr>parsing_done := True\<rparr>)))"
| "main_parse_loop W_publish p =
     (case current_example p of
        Slot i \<Rightarrow>
          (case examples_ring p of
             None \<Rightarrow> Failed InvalidPointer
           | Some r \<Rightarrow>
               (if i < length (slots r)
                then Done (goto W_count
                       (p\<lparr>examples_ring := Some (copy_example (write_back p r i) i)\<rparr>))
                else Failed InvalidPointer))
      | Null \<Rightarrow> Failed InvalidPointer
      | Uninitialised \<Rightarrow> Failed InvalidPointer)"
| "main_parse_loop W_count p =
     (case incr_int32 (number_of_vectors_parsed p) of
        Done n \<Rightarrow> Done (goto W_while (notify_one (p\<lparr>number_of_vectors_parsed := n\<rparr>)))
      | Blocked \<Rightarrow> Blocked
      | Failed f \<Rightarrow> Failed f)"
| "main_parse_loop W_returned p = Blocked"

text \<open>One step of the parse thread, if there is one.\<close>

definition worker_step :: "('s, 't) InputParser \<Rightarrow> ('s, 't) InputParser outcome" where
  "worker_step p =
     (case parse_thread p of NoThread \<Rightarrow> Blocked | Thread pc \<Rightarrow> main_parse_loop pc p)"

subsection \<open>The consumer\<close>

definition retrieve_example ::
  "('s, 't) InputParser \<Rightarrow> (example_ptr \<times> ('s, 't) InputParser) outcome" where
  "retrieve_example p =
     (if parsing_done p \<and> number_of_vectors_read p = number_of_vectors_parsed p
      then Done (Null, notify_one (p\<lparr>reading_done := True\<rparr>))
      else if number_of_vectors_parsed p \<le> 0 then Done (Null, p)
      else if number_of_vectors_read p = number_of_vectors_parsed p then Done (Null, p)
      else
        (case examples_ring p of
           None \<Rightarrow> Failed InvalidPointer
         | Some r \<Rightarrow>
             (case get_unused_example r of
                None \<Rightarrow> Blocked
              | Some (i, r') \<Rightarrow>
                  (case incr_int32 (number_of_vectors_read p) of
                     Done n \<Rightarrow>
                       Done (Slot i, p\<lparr>examples_ring := Some r', number_of_vectors_read := n\<rparr>)
                   | Blocked \<Rightarrow> Blocked
                   | Failed f \<Rightarrow> Failed f))))"

text \<open>
  Lines 619-623, after the loop: the out parameters are filled from \<^verbatim>\<open>*ex\<close> and 1 is
  returned.  \<^verbatim>\<open>ex\<close> must point to a slot.
\<close>

definition deliver ::
  "example_ptr \<Rightarrow> ('s, 't) InputParser
     \<Rightarrow> (int \<times> ('t list option \<times> int \<times> real) \<times> ('s, 't) InputParser) outcome" where
  "deliver ex p =
     (case ex of
        Slot i \<Rightarrow>
          (case examples_ring p of
             None \<Rightarrow> Failed InvalidPointer
           | Some r \<Rightarrow>
               (if i < length (slots r)
                then Done (1, (fv (slots r ! i), length_ex (slots r ! i), label (slots r ! i)), p)
                else Failed InvalidPointer))
      | Null \<Rightarrow> Failed InvalidPointer
      | Uninitialised \<Rightarrow> Failed InvalidPointer)"

text \<open>
  \<^verbatim>\<open>get_next_example(fv, length, label)\<close> from the head of its loop, with the local
  \<^verbatim>\<open>ex\<close> as it stands there.  The only way round the loop is through
  \<^verbatim>\<open>examples_state_changed.wait(lock)\<close>: the call is then \<open>Blocked\<close> with the object
  unchanged, and when it wakes it is at the head of the loop again with \<^verbatim>\<open>ex == NULL\<close>.
  The two reads before the lock is taken (\<^verbatim>\<open>keep_running\<close>, \<^verbatim>\<open>reading_done\<close>) belong
  to the same step as the critical section: the worker writes neither, and a store of
  \<^verbatim>\<open>exit_parser\<close> that falls between them and the lock is the run in which the store
  comes after the pass.
\<close>

definition get_next_example_from ::
  "example_ptr \<Rightarrow> ('s, 't) InputParser \<Rightarrow> 't list option \<times> int \<times> real
     \<Rightarrow> (int \<times> ('t list option \<times> int \<times> real) \<times> ('s, 't) InputParser) outcome" where
  "get_next_example_from ex p args =
     (if keep_running p
      then
        (if reading_done p then Done (0, args, p)
         else
           (case retrieve_example p of
              Done (ex', p') \<Rightarrow>
                (if ex' = Null
                 then (if reading_done p' then Done (0, args, p') else Blocked)
                 else deliver ex' p')
            | Blocked \<Rightarrow> Blocked
            | Failed f \<Rightarrow> Failed f))
      else deliver ex p)"

text \<open>A fresh call: \<^verbatim>\<open>Example<T> *ex;\<close> is not initialised.\<close>

definition get_next_example ::
  "('s, 't) InputParser \<Rightarrow> 't list option \<times> int \<times> real
     \<Rightarrow> (int \<times> ('t list option \<times> int \<times> real) \<times> ('s, 't) InputParser) outcome" where
  "get_next_example p args = get_next_example_from Uninitialised p args"

text \<open>A call that waited and has been woken.\<close>

definition get_next_example_woken ::
  "('s, 't) InputParser \<Rightarrow> 't list option \<times> int \<times> real
     \<Rightarrow> (int \<times> ('t list option \<times> int \<times> real) \<times> ('s, 't) InputParser) outcome" where
  "get_next_example_woken p args = get_next_example_from Null p args"

text \<open>
  The overload without a label.  \<^verbatim>\<open>label_dummy\<close> is a local that is not initialised:
  its value is a parameter of the model.
\<close>

definition get_next_example_unlabelled ::
  "real \<Rightarrow> ('s, 't) InputParser \<Rightarrow> 't list option \<times> int
     \<Rightarrow> (int \<times> ('t list option \<times> int) \<times> ('s, 't) InputParser) outcome" where
  "get_next_example_unlabelled label_dummy p args =
     (case get_next_example p (fst args, snd args, label_dummy) of
        Done (ret, (feature_vector, len, lab), p') \<Rightarrow> Done (ret, (feature_vector, len), p')
      | Blocked \<Rightarrow> Blocked
      | Failed f \<Rightarrow> Failed f)"

definition finalize_example :: "('s, 't) InputParser \<Rightarrow> ('s, 't) InputParser outcome" where
  "finalize_example p =
     (case examples_ring p of
        None \<Rightarrow> Failed InvalidPointer
      | Some r \<Rightarrow>
          (case ring_finalize_example r (free_after_release p) of
             None \<Rightarrow> Failed ContractViolation
           | Some r' \<Rightarrow> Done (p\<lparr>examples_ring := Some r'\<rparr>)))"

subsection \<open>Joining and cancelling\<close>

definition end_parser :: "('s, 't) InputParser \<Rightarrow> ('s, 't) InputParser outcome" where
  "end_parser p =
     (if joinable (parse_thread p)
      then (case join (parse_thread p) of
              Done t \<Rightarrow> Done (p\<lparr>parse_thread := t\<rparr>)
            | Blocked \<Rightarrow> Blocked
            | Failed f \<Rightarrow> Failed f)
      else Done p)"

text \<open>Lines 652-653 of \<^verbatim>\<open>exit_parser\<close>: the flag is cleared and the condition notified.\<close>

definition exit_parser_cancel :: "('s, 't) InputParser \<Rightarrow> ('s, 't) InputParser" where
  "exit_parser_cancel p = notify_one (p\<lparr>keep_running := False\<rparr>)"

text \<open>
  \<^verbatim>\<open>exit_parser\<close> when no step of the worker falls between the store and the join.
  In a run the two halves are separate steps (\<open>A_exit_cancel\<close>, then the join of
  \<open>A_end_parser\<close>), so that the worker can see the cleared flag.
\<close>

definition exit_parser :: "('s, 't) InputParser \<Rightarrow> ('s, 't) InputParser outcome" where
  "exit_parser p =
     (let p1 = exit_parser_cancel p in
      if joinable (parse_thread p1)
      then (case join (parse_thread p1) of
              Done t \<Rightarrow> Done (p1\<lparr>parse_thread := t\<rparr>)
            | Blocked \<Rightarrow> Blocked
            | Failed f \<Rightarrow> Failed f)
      else Done p1)"

subsection \<open>Runs\<close>

text \<open>
  What can happen to a parser after \<^verbatim>\<open>init\<close>: a step of the parse thread, or a call
  of the public interface by the consumer.  No order is imposed on the calls, so the
  runs of the model include every interleaving of a worker with a consumer that follows
  the protocol, and more.  \<^verbatim>\<open>init\<close> is not a step: it starts a run.
\<close>

datatype ('s, 't) action =
    A_worker
  | A_get_next_example "'t list option" int real
  | A_get_next_example_woken "'t list option" int real
  | A_retrieve_example
  | A_finalize_example
  | A_start_parser
  | A_end_parser
  | A_exit_cancel
  | A_is_running
  | A_set_free_vector_after_release bool
  | A_set_free_vectors_on_destruct bool
  | A_set_read_vector "'s \<Rightarrow> 't list option \<times> int \<Rightarrow> ('t list option \<times> int) \<times> 's"
  | A_set_read_vector_and_label
      "'s \<Rightarrow> 't list option \<times> int \<times> real \<Rightarrow> ('t list option \<times> int \<times> real) \<times> 's"

definition map_outcome :: "('a \<Rightarrow> 'b) \<Rightarrow> 'a outcome \<Rightarrow> 'b outcome" where
  "map_outcome f x = (case x of Done a \<Rightarrow> Done (f a) | Blocked \<Rightarrow> Blocked | Failed e \<Rightarrow> Failed e)"

fun step :: "('s, 't) action \<Rightarrow> ('s, 't) InputParser \<Rightarrow> ('s, 't) InputParser outcome" where
  "step A_worker p = worker_step p"
| "step (A_get_next_example feature_vector len lab) p =
     map_outcome (\<lambda>(ret, out, p'). p') (get_next_example p (feature_vector, len, lab))"
| "step (A_get_next_example_woken feature_vector len lab) p =
     map_outcome (\<lambda>(ret, out, p'). p') (get_next_example_woken p (feature_vector, len, lab))"
| "step A_retrieve_example p = map_outcome snd (retrieve_example p)"
| "step A_finalize_example p = finalize_example p"
| "step A_start_parser p = start_parser p"
| "step A_end_parser p = end_parser p"
| "step A_exit_cancel p = Done (exit_parser_cancel p)"
| "step A_is_running p = Done p"
| "step (A_set_free_vector_after_release free_vec) p =
     Done (set_free_vector_after_release p free_vec)"
| "step (A_set_free_vectors_on_destruct destroy) p = set_free_vectors_on_destruct p destroy"
| "step (A_set_read_vector func_ptr) p = Done (set_read_vector p func_ptr)"
| "step (A_set_read_vector_and_label func_ptr) p = Done (set_read_vector_and_label p func_ptr)"

text \<open>A run: the actions one after the other, as long as each one returns.\<close>

fun exec :: "('s, 't) action list \<Rightarrow> ('s, 't) InputParser \<Rightarrow> ('s, 't) InputParser outcome" where
  "exec [] p = Done p"
| "exec (a # as) p =
     (case step a p of
        Done p' \<Rightarrow> exec as p'
      | Blocked \<Rightarrow> Blocked
      | Failed f \<Rightarrow> Failed f)"

text \<open>
  The examples the source produced in a run, as the spec counts them (its sections 4.2
  and 8 and its glossary): a read that comes back with a length \<open>\<le> 0\<close> is the end of
  the stream, and the examples are the reads of the worker before it.
\<close>

fun N_source :: "('s, 't) action list \<Rightarrow> ('s, 't) InputParser \<Rightarrow> nat" where
  "N_source [] p = 0"
| "N_source (a # as) p =
     (case step a p of
        Done p' \<Rightarrow>
          (case a of
             A_worker \<Rightarrow>
               (if parse_thread p = Thread W_read
                then (if returned_length p \<le> 0 then 0 else 1 + N_source as p')
                else N_source as p')
           | _ \<Rightarrow> N_source as p')
      | Blocked \<Rightarrow> 0
      | Failed f \<Rightarrow> 0)"

text \<open>
  A call of \<^verbatim>\<open>retrieve_example\<close> that finds parsing done and every parsed example
  read: directly, or through \<^verbatim>\<open>get_next_example\<close>, which reaches the call when
  \<^verbatim>\<open>keep_running\<close> holds and \<^verbatim>\<open>reading_done\<close> does not.
\<close>

definition calls_retrieve :: "('s, 't) action \<Rightarrow> ('s, 't) InputParser \<Rightarrow> bool" where
  "calls_retrieve a p =
     (case a of
        A_retrieve_example \<Rightarrow> True
      | A_get_next_example feature_vector len lab \<Rightarrow> keep_running p \<and> \<not> reading_done p
      | A_get_next_example_woken feature_vector len lab \<Rightarrow> keep_running p \<and> \<not> reading_done p
      | _ \<Rightarrow> False)"

definition observes_drained :: "('s, 't) action \<Rightarrow> ('s, 't) InputParser \<Rightarrow> bool" where
  "observes_drained a p =
     (calls_retrieve a p \<and> parsing_done p
        \<and> number_of_vectors_read p = number_of_vectors_parsed p)"

subsection \<open>A source for worked examples\<close>

text \<open>
  Modelled from the spec: a \<^verbatim>\<open>StreamingFile\<close> (shogun/io/streaming/StreamingFile.h is not
  among the sources) over the records it will yield, in order.  A read writes the next
  record into the caller's locations; when there is none left it writes the length
  \<open>- 1\<close>, the end of the stream.
\<close>

definition stream_get_vector_and_label ::
  "('t list option \<times> int \<times> real) list \<Rightarrow> 't list option \<times> int \<times> real
     \<Rightarrow> ('t list option \<times> int \<times> real) \<times> ('t list option \<times> int \<times> real) list" where
  "stream_get_vector_and_label src args =
     (case src of
        [] \<Rightarrow> ((fst args, - 1, snd (snd args)), [])
      | r # rs \<Rightarrow> (r, rs))"

definition stream_get_vector ::
  "('t list option \<times> int \<times> real) list \<Rightarrow> 't list option \<times> int
     \<Rightarrow> ('t list option \<times> int) \<times> ('t list option \<times> int \<times> real) list" where
  "stream_get_vector src args =
     (case src of
        [] \<Rightarrow> ((fst args, - 1), [])
      | r # rs \<Rightarrow> ((fst r, fst (snd r)), rs))"

text \<open>The memory of a parser before its constructor runs, with the two readers set.\<close>

definition raw_parser :: "((real list option \<times> int \<times> real) list, real) InputParser" where
  "raw_parser =
     \<lparr>parsing_done = False, reading_done = False, example_type = E_UNLABELLED,
      read_vector = stream_get_vector,
      read_vector_and_label = stream_get_vector_and_label,
      input_source = [], parse_thread = NoThread, examples_ring = None,
      number_of_features = 0, number_of_vectors_parsed = 0, number_of_vectors_read = 0,
      current_example = Uninitialised, current_feature_vector = None,
      current_label = 0, current_len = 0, free_after_release = False, ring_size = 0,
      examples_state_changed = 0, keep_running = False\<rparr>"

text \<open>A constructed and initialised parser over the given records, labelled, with two slots.\<close>

definition parser_on ::
  "(real list option \<times> int \<times> real) list
     \<Rightarrow> ((real list option \<times> int \<times> real) list, real) InputParser" where
  "parser_on records = init (InputParser_ctor raw_parser) records True 2"

text \<open>
  Modelled from the spec: a \<^verbatim>\<open>StreamingFile\<close> that never ends (the spec's scenario 4
  has one): every read writes the same example of length 1.
\<close>

definition endless_get_vector_and_label ::
  "unit \<Rightarrow> real list option \<times> int \<times> real \<Rightarrow> (real list option \<times> int \<times> real) \<times> unit" where
  "endless_get_vector_and_label src args = ((Some [1], 1, 0), ())"

definition endless_get_vector ::
  "unit \<Rightarrow> real list option \<times> int \<Rightarrow> (real list option \<times> int) \<times> unit" where
  "endless_get_vector src args = ((Some [1], 1), ())"

text \<open>A constructed and initialised parser on that source, labelled, with one slot.\<close>

definition endless_parser :: "(unit, real) InputParser" where
  "endless_parser =
     init (InputParser_ctor
       \<lparr>parsing_done = False, reading_done = False, example_type = E_UNLABELLED,
        read_vector = endless_get_vector,
        read_vector_and_label = endless_get_vector_and_label,
        input_source = (), parse_thread = NoThread, examples_ring = None,
        number_of_features = 0, number_of_vectors_parsed = 0, number_of_vectors_read = 0,
        current_example = Uninitialised, current_feature_vector = None,
        current_label = 0, current_len = 0, free_after_release = False, ring_size = 0,
        examples_state_changed = 0, keep_running = False\<rparr>) () True 1"

text \<open>
  One example through the parser, with a consumer that follows the protocol: the six
  steps of an iteration of the worker, then \<^verbatim>\<open>get_next_example\<close> and
  \<^verbatim>\<open>finalize_example\<close>.
\<close>

definition round_trip :: "(unit, real) action list" where
  "round_trip =
     [A_worker, A_worker, A_worker, A_worker, A_worker, A_worker,
      A_get_next_example None 0 0, A_finalize_example]"

text \<open>The parser after \<^verbatim>\<open>start_parser\<close> and \<open>k\<close> such rounds, \<open>k \<ge> 1\<close>.\<close>

definition after_rounds :: "nat \<Rightarrow> (unit, real) InputParser" where
  "after_rounds k =
     endless_parser
       \<lparr>examples_ring :=
          Some \<lparr>slots = [\<lparr>fv = None, length_ex = 1, label = 0, state = EMPTY\<rparr>],
                write_idx = k, read_idx = k, free_vectors_on_destruct = False\<rparr>,
        keep_running := True, parse_thread := Thread W_while,
        current_example := Slot 0, current_feature_vector := Some [1],
        current_len := 1, current_label := 0,
        number_of_vectors_parsed := int k, number_of_vectors_read := int k,
        examples_state_changed := k\<rparr>"

subsection \<open>Invariants of a run\<close>

definition counters_inv :: "('s, 't) InputParser \<Rightarrow> bool" where
  "counters_inv p =
     (0 \<le> number_of_vectors_read p
      \<and> number_of_vectors_read p \<le> number_of_vectors_parsed p
      \<and> number_of_vectors_parsed p \<le> INT32_MAX
      \<and> examples_ring p \<noteq> None)"

text \<open>
  The consumer holds a slot: the slot at the read cursor is being read.
\<close>

definition held :: "'t ParseBuffer \<Rightarrow> bool" where
  "held r =
     (read_idx r mod length (slots r) < length (slots r)
      \<and> state (slots r ! (read_idx r mod length (slots r))) = READING)"

text \<open>
  The ring between its cursors.  The slots from the read cursor up to the write cursor
  are published: they are \<open>READY\<close>, but for the first, which may be the one being
  read.  No other slot is being read.  When the worker has claimed a slot (\<open>writing\<close>),
  it is the slot at the write cursor.
\<close>

definition ring_ok :: "'t ParseBuffer \<Rightarrow> bool \<Rightarrow> bool" where
  "ring_ok r writing =
     (write_idx r \<le> read_idx r + length (slots r)
      \<and> (\<forall>k. read_idx r \<le> k \<and> k < write_idx r \<longrightarrow>
             state (slots r ! (k mod length (slots r))) = READY
             \<or> k = read_idx r \<and> state (slots r ! (k mod length (slots r))) = READING)
      \<and> (\<forall>j < length (slots r). state (slots r ! j) = READING \<longrightarrow>
             j = read_idx r mod length (slots r))
      \<and> (writing \<longrightarrow>
             write_idx r mod length (slots r) < length (slots r)
             \<and> state (slots r ! (write_idx r mod length (slots r))) = WRITING))"

text \<open>
  The worker has claimed a slot and has still to publish it; and what the counters
  count: the examples published (but for the one the worker is about to count) and the
  examples taken by the consumer.
\<close>

definition claimed :: "('s, 't) InputParser \<Rightarrow> bool" where
  "claimed p = (parse_thread p = Thread W_read \<or> parse_thread p = Thread W_publish)"

definition ring_inv :: "('s, 't) InputParser \<Rightarrow> bool" where
  "ring_inv p =
     (case examples_ring p of
        None \<Rightarrow> False
      | Some r \<Rightarrow>
          ring_ok r (claimed p)
          \<and> (claimed p \<longrightarrow> current_example p = Slot (write_idx r mod length (slots r)))
          \<and> number_of_vectors_parsed p
              = int (write_idx r) - (if parse_thread p = Thread W_count then 1 else 0)
          \<and> number_of_vectors_read p = int (read_idx r) + (if held r then 1 else 0))"

section \<open>Properties\<close>

subsection \<open>What a call changes\<close>

lemmas eval_defs =
  parser_on_def init_def InputParser_ctor_def raw_parser_def ParseBuffer_init_def
  start_parser_def is_running_def thread_move_assign_def joinable_def join_def
  init_vector_def worker_step_def goto_def notify_one_def read_example_def
  returned_length_def get_vector_and_label_def get_vector_only_def
  stream_get_vector_and_label_def stream_get_vector_def get_free_example_def
  copy_example_def write_back_def get_unused_example_def ring_finalize_example_def
  incr_int32_def INT32_MAX_def retrieve_example_def deliver_def
  get_next_example_from_def get_next_example_def get_next_example_woken_def
  finalize_example_def end_parser_def exit_parser_cancel_def map_outcome_def
  Let_def

lemma read_example_frame:
  "examples_ring (read_example p) = examples_ring p"
  "number_of_vectors_parsed (read_example p) = number_of_vectors_parsed p"
  "number_of_vectors_read (read_example p) = number_of_vectors_read p"
  "parsing_done (read_example p) = parsing_done p"
  "reading_done (read_example p) = reading_done p"
  "examples_state_changed (read_example p) = examples_state_changed p"
  "keep_running (read_example p) = keep_running p"
  "parse_thread (read_example p) = parse_thread p"
  "current_example (read_example p) = current_example p"
  by (simp_all add: read_example_def get_vector_and_label_def
      get_vector_only_def split: prod.splits)

lemma current_len_read_example: "current_len (read_example p) = returned_length p"
  by (simp add: read_example_def returned_length_def get_vector_and_label_def
      get_vector_only_def split: prod.splits)

lemma get_unused_example_Some:
  "get_unused_example r = Some (i, r') \<Longrightarrow>
     i = read_idx r mod length (slots r) \<and> i < length (slots r)
     \<and> state (slots r ! i) = READY \<and> state (slots r' ! i) = READING
     \<and> read_idx r' = read_idx r \<and> write_idx r' = write_idx r"
  by (auto simp: get_unused_example_def Let_def split: if_splits)

lemma retrieve_example_effect:
  assumes "retrieve_example p = Done (ex, p')"
  shows "number_of_vectors_parsed p' = number_of_vectors_parsed p"
    and "parse_thread p' = parse_thread p"
    and "parsing_done p' = parsing_done p"
    and "keep_running p' = keep_running p"
    and "examples_ring p \<noteq> None \<longrightarrow> examples_ring p' \<noteq> None"
    and "reading_done p' =
           (reading_done p \<or> parsing_done p \<and> number_of_vectors_read p = number_of_vectors_parsed p)"
    and "number_of_vectors_read p' =
           (if ex = Null then number_of_vectors_read p else number_of_vectors_read p + 1)"
    and "ex \<noteq> Null \<longrightarrow> number_of_vectors_read p \<noteq> number_of_vectors_parsed p
           \<and> 0 < number_of_vectors_parsed p \<and> number_of_vectors_read p \<noteq> INT32_MAX"
    and "ex \<noteq> Uninitialised"
  using assms
  by (auto simp: retrieve_example_def notify_one_def incr_int32_def
      split: option.splits if_splits outcome.splits prod.splits)

lemma deliver_effect:
  "deliver ex p = Done (ret, out, p') \<Longrightarrow> p' = p"
  by (auto simp: deliver_def split: example_ptr.splits option.splits if_splits)

text \<open>
  A pass of \<^verbatim>\<open>get_next_example\<close> that returns has either returned 0 at once
  (\<^verbatim>\<open>reading_done\<close> was set), or has gone through \<^verbatim>\<open>retrieve_example\<close>.
\<close>

lemma get_next_example_from_Done:
  assumes "get_next_example_from ex0 p args = Done (ret, out, p')"
    and "ex0 = Uninitialised \<or> ex0 = Null"
  shows "keep_running p \<and>
         (reading_done p \<and> p' = p
          \<or> \<not> reading_done p \<and> (\<exists>ex. retrieve_example p = Done (ex, p')))"
proof (cases "keep_running p")
  case False
  with assms(1) have "deliver ex0 p = Done (ret, out, p')"
    by (simp add: get_next_example_from_def)
  with assms(2) show ?thesis
    by (auto simp: deliver_def)
next
  case True
  show ?thesis
  proof (cases "reading_done p")
    case True
    with assms(1) \<open>keep_running p\<close> show ?thesis
      by (simp add: get_next_example_from_def)
  next
    case False
    with assms(1) \<open>keep_running p\<close> obtain ex p1 where r: "retrieve_example p = Done (ex, p1)"
      by (auto simp: get_next_example_from_def split: outcome.splits)
    with assms(1) \<open>keep_running p\<close> False have "p' = p1"
      by (auto simp: get_next_example_from_def split: if_splits dest: deliver_effect)
    with r False \<open>keep_running p\<close> show ?thesis
      by simp
  qed
qed

lemma worker_step_effect:
  assumes "worker_step p = Done p'"
  shows "number_of_vectors_read p' = number_of_vectors_read p"
    and "reading_done p' = reading_done p"
    and "number_of_vectors_parsed p \<le> number_of_vectors_parsed p'"
    and "number_of_vectors_parsed p \<le> INT32_MAX \<longrightarrow> number_of_vectors_parsed p' \<le> INT32_MAX"
    and "examples_ring p \<noteq> None \<longrightarrow> examples_ring p' \<noteq> None"
proof -
  from assms obtain pc where pc: "parse_thread p = Thread pc" "main_parse_loop pc p = Done p'"
    by (auto simp: worker_step_def split: thread.splits)
  show "number_of_vectors_read p' = number_of_vectors_read p"
    using pc
    by (cases pc)
      (auto simp: goto_def notify_one_def Let_def read_example_frame incr_int32_def
        split: option.splits if_splits example_ptr.splits)
  show "reading_done p' = reading_done p"
    using pc
    by (cases pc)
      (auto simp: goto_def notify_one_def Let_def read_example_frame incr_int32_def
        split: option.splits if_splits example_ptr.splits)
  show "number_of_vectors_parsed p \<le> number_of_vectors_parsed p'"
    using pc
    by (cases pc)
      (auto simp: goto_def notify_one_def Let_def read_example_frame incr_int32_def
        split: option.splits if_splits example_ptr.splits)
  show "number_of_vectors_parsed p \<le> INT32_MAX \<longrightarrow> number_of_vectors_parsed p' \<le> INT32_MAX"
    using pc
    by (cases pc)
      (auto simp: goto_def notify_one_def Let_def read_example_frame incr_int32_def
        split: option.splits if_splits example_ptr.splits)
  show "examples_ring p \<noteq> None \<longrightarrow> examples_ring p' \<noteq> None"
    using pc
    by (cases pc)
      (auto simp: goto_def notify_one_def Let_def read_example_frame incr_int32_def
        split: option.splits if_splits example_ptr.splits)
qed


text \<open>A call of the consumer's side that returns: what it leaves of the shared members.\<close>

lemma consumer_pass_effect:
  assumes "get_next_example_from ex0 p args = Done (ret, out, p')"
    and "ex0 = Uninitialised \<or> ex0 = Null"
  shows "number_of_vectors_parsed p' = number_of_vectors_parsed p"
    and "parse_thread p' = parse_thread p"
    and "examples_ring p \<noteq> None \<longrightarrow> examples_ring p' \<noteq> None"
    and "number_of_vectors_read p \<le> number_of_vectors_read p'"
    and "counters_inv p \<longrightarrow> counters_inv p'"
    and "reading_done p' =
           (reading_done p \<or> keep_running p \<and> \<not> reading_done p \<and> parsing_done p
              \<and> number_of_vectors_read p = number_of_vectors_parsed p)"
proof -
  from get_next_example_from_Done [OF assms]
  consider "p' = p" "reading_done p" "keep_running p"
    | ex where "retrieve_example p = Done (ex, p')" "\<not> reading_done p" "keep_running p"
    by blast
  then have "number_of_vectors_parsed p' = number_of_vectors_parsed p
      \<and> parse_thread p' = parse_thread p
      \<and> (examples_ring p \<noteq> None \<longrightarrow> examples_ring p' \<noteq> None)
      \<and> number_of_vectors_read p \<le> number_of_vectors_read p'
      \<and> (counters_inv p \<longrightarrow> counters_inv p')
      \<and> reading_done p' =
           (reading_done p \<or> keep_running p \<and> \<not> reading_done p \<and> parsing_done p
              \<and> number_of_vectors_read p = number_of_vectors_parsed p)"
  proof cases
    case 1
    then show ?thesis by simp
  next
    case 2
    from retrieve_example_effect [OF 2(1)] 2(2,3) show ?thesis
      by (auto simp: counters_inv_def split: if_splits)
  qed
  then show "number_of_vectors_parsed p' = number_of_vectors_parsed p"
    and "parse_thread p' = parse_thread p"
    and "examples_ring p \<noteq> None \<longrightarrow> examples_ring p' \<noteq> None"
    and "number_of_vectors_read p \<le> number_of_vectors_read p'"
    and "counters_inv p \<longrightarrow> counters_inv p'"
    and "reading_done p' =
           (reading_done p \<or> keep_running p \<and> \<not> reading_done p \<and> parsing_done p
              \<and> number_of_vectors_read p = number_of_vectors_parsed p)"
    by blast+
qed


lemma step_consumer_cases:
  assumes "step a q = Done q'"
  obtains (worker) "a = A_worker" "worker_step q = Done q'"
    | (next_example) ex0 args ret out where
        "a = A_get_next_example (fst args) (fst (snd args)) (snd (snd args))
         \<or> a = A_get_next_example_woken (fst args) (fst (snd args)) (snd (snd args))"
        "ex0 = Uninitialised \<or> ex0 = Null"
        "get_next_example_from ex0 q args = Done (ret, out, q')"
    | (retrieve) ex where "a = A_retrieve_example" "retrieve_example q = Done (ex, q')"
    | (finalize) "a = A_finalize_example" "finalize_example q = Done q'"
    | (start) "a = A_start_parser" "start_parser q = Done q'"
    | (end_parser) "a = A_end_parser" "end_parser q = Done q'"
    | (cancel) "a = A_exit_cancel" "q' = exit_parser_cancel q"
    | (config) "\<forall>x y z. a \<noteq> A_worker \<and> a \<noteq> A_get_next_example x y z
          \<and> a \<noteq> A_get_next_example_woken x y z \<and> a \<noteq> A_retrieve_example
          \<and> a \<noteq> A_start_parser \<and> a \<noteq> A_end_parser"
        "number_of_vectors_parsed q' = number_of_vectors_parsed q"
        "number_of_vectors_read q' = number_of_vectors_read q"
        "reading_done q' = reading_done q"
        "parse_thread q' = parse_thread q"
        "examples_ring q \<noteq> None \<longrightarrow> examples_ring q' \<noteq> None"
proof (cases a)
  case A_worker
  with assms show ?thesis by (auto intro: worker)
next
  case (A_get_next_example f l lb)
  with assms obtain ret out where
    "get_next_example_from Uninitialised q (f, l, lb) = Done (ret, out, q')"
    by (auto simp: map_outcome_def get_next_example_def split: outcome.splits)
  with A_get_next_example show ?thesis
    by (intro next_example [of "(f, l, lb)" Uninitialised ret out]) auto
next
  case (A_get_next_example_woken f l lb)
  with assms obtain ret out where
    "get_next_example_from Null q (f, l, lb) = Done (ret, out, q')"
    by (auto simp: map_outcome_def get_next_example_woken_def split: outcome.splits)
  with A_get_next_example_woken show ?thesis
    by (intro next_example [of "(f, l, lb)" Null ret out]) auto
next
  case A_retrieve_example
  with assms show ?thesis
    by (auto simp: map_outcome_def split: outcome.splits intro: retrieve)
next
  case A_finalize_example
  with assms show ?thesis by (auto intro: finalize)
next
  case A_start_parser
  with assms show ?thesis by (auto intro: start)
next
  case A_end_parser
  with assms show ?thesis by (auto intro: end_parser)
next
  case A_exit_cancel
  with assms show ?thesis by (auto intro: cancel)
next
  case A_is_running
  with assms show ?thesis by (auto intro: config)
next
  case (A_set_free_vector_after_release b)
  with assms show ?thesis
    by (auto simp: set_free_vector_after_release_def intro: config)
next
  case (A_set_free_vectors_on_destruct b)
  with assms show ?thesis
    by (intro config)
      (auto simp: set_free_vectors_on_destruct_def split: option.splits)
next
  case (A_set_read_vector f)
  with assms show ?thesis
    by (auto simp: set_read_vector_def intro: config)
next
  case (A_set_read_vector_and_label f)
  with assms show ?thesis
    by (auto simp: set_read_vector_and_label_def intro: config)
qed


lemma finalize_example_effect:
  assumes "finalize_example q = Done q'"
  shows "number_of_vectors_parsed q' = number_of_vectors_parsed q"
    and "number_of_vectors_read q' = number_of_vectors_read q"
    and "reading_done q' = reading_done q"
    and "parse_thread q' = parse_thread q"
    and "examples_ring q' \<noteq> None"
  using assms
  by (auto simp: finalize_example_def split: option.splits)

lemma start_parser_effect:
  assumes "start_parser q = Done q'"
  shows "number_of_vectors_parsed q' = number_of_vectors_parsed q"
    and "number_of_vectors_read q' = number_of_vectors_read q"
    and "reading_done q' = reading_done q"
    and "parse_thread q = NoThread" and "parse_thread q' = Thread W_while"
    and "examples_ring q \<noteq> None \<longrightarrow> examples_ring q' \<noteq> None"
  using assms
  by (auto simp: start_parser_def thread_move_assign_def joinable_def Let_def
      split: option.splits if_splits thread.splits)

lemma end_parser_effect:
  assumes "end_parser q = Done q'"
  shows "number_of_vectors_parsed q' = number_of_vectors_parsed q"
    and "number_of_vectors_read q' = number_of_vectors_read q"
    and "reading_done q' = reading_done q"
    and "parse_thread q = NoThread \<or> parse_thread q = Thread W_returned"
    and "parse_thread q' = NoThread"
    and "examples_ring q' = examples_ring q"
  using assms
  by (auto simp: end_parser_def join_def joinable_def
      split: option.splits if_splits thread.splits)

lemma exit_parser_cancel_effect:
  "number_of_vectors_parsed (exit_parser_cancel q) = number_of_vectors_parsed q"
  "number_of_vectors_read (exit_parser_cancel q) = number_of_vectors_read q"
  "reading_done (exit_parser_cancel q) = reading_done q"
  "parse_thread (exit_parser_cancel q) = parse_thread q"
  "examples_ring (exit_parser_cancel q) = examples_ring q"
  by (simp_all add: exit_parser_cancel_def notify_one_def)

lemma step_counters_mono:
  assumes "step a q = Done q'"
  shows "number_of_vectors_parsed q \<le> number_of_vectors_parsed q'
         \<and> number_of_vectors_read q \<le> number_of_vectors_read q'"
  using assms
proof (cases rule: step_consumer_cases)
  case worker
  then show ?thesis by (simp add: worker_step_effect)
next
  case (next_example ex0 args ret out)
  from consumer_pass_effect [OF next_example(3,2)] show ?thesis by simp
next
  case (retrieve ex)
  from retrieve_example_effect [OF retrieve(2)] show ?thesis by simp
next
  case finalize
  then show ?thesis by (simp add: finalize_example_effect)
next
  case start
  then show ?thesis by (simp add: start_parser_effect)
next
  case end_parser
  then show ?thesis by (simp add: end_parser_effect)
next
  case cancel
  then show ?thesis by (simp add: exit_parser_cancel_effect)
next
  case config
  then show ?thesis by simp
qed

lemma step_counters_inv:
  assumes "step a q = Done q'" and "counters_inv q"
  shows "counters_inv q'"
  using assms(1)
proof (cases rule: step_consumer_cases)
  case worker
  from worker_step_effect [OF worker(2)] assms(2) show ?thesis
    by (simp add: counters_inv_def)
next
  case (next_example ex0 args ret out)
  from consumer_pass_effect [OF next_example(3,2)] assms(2) show ?thesis by simp
next
  case (retrieve ex)
  from retrieve_example_effect [OF retrieve(2)] assms(2) show ?thesis
    by (auto simp: counters_inv_def split: if_splits)
next
  case finalize
  from finalize_example_effect [OF finalize(2)] assms(2) show ?thesis
    by (simp add: counters_inv_def)
next
  case start
  from start_parser_effect [OF start(2)] assms(2) show ?thesis
    by (simp add: counters_inv_def)
next
  case end_parser
  from end_parser_effect [OF end_parser(2)] assms(2) show ?thesis
    by (simp add: counters_inv_def)
next
  case cancel
  with assms(2) show ?thesis
    by (simp add: counters_inv_def exit_parser_cancel_effect)
next
  case config
  with assms(2) show ?thesis by (simp add: counters_inv_def)
qed

lemma step_reading_done:
  assumes "step a q = Done q'"
  shows "reading_done q' = (reading_done q \<or> observes_drained a q)"
  using assms
proof (cases rule: step_consumer_cases)
  case worker
  then show ?thesis
    by (simp add: worker_step_effect observes_drained_def calls_retrieve_def)
next
  case (next_example ex0 args ret out)
  from consumer_pass_effect [OF next_example(3,2)] next_example(1) show ?thesis
    by (auto simp: observes_drained_def calls_retrieve_def)
next
  case (retrieve ex)
  from retrieve_example_effect [OF retrieve(2)] retrieve(1) show ?thesis
    by (simp add: observes_drained_def calls_retrieve_def)
next
  case finalize
  from finalize_example_effect [OF finalize(2)] finalize(1) show ?thesis
    by (simp add: observes_drained_def calls_retrieve_def)
next
  case start
  from start_parser_effect [OF start(2)] start(1) show ?thesis
    by (simp add: observes_drained_def calls_retrieve_def)
next
  case end_parser
  from end_parser_effect [OF end_parser(2)] end_parser(1) show ?thesis
    by (simp add: observes_drained_def calls_retrieve_def)
next
  case cancel
  then show ?thesis
    by (simp add: observes_drained_def calls_retrieve_def exit_parser_cancel_effect)
next
  case config
  then show ?thesis
    by (cases a) (simp_all add: observes_drained_def calls_retrieve_def)
qed

lemma step_other_thread:
  assumes "step a q = Done q'" and "a \<noteq> A_worker" and "parse_thread q = Thread pc"
    and "pc \<noteq> W_returned"
  shows "parse_thread q' = Thread pc"
    and "number_of_vectors_parsed q' = number_of_vectors_parsed q"
proof -
  from assms(1) have "parse_thread q' = Thread pc
      \<and> number_of_vectors_parsed q' = number_of_vectors_parsed q"
  proof (cases rule: step_consumer_cases)
    case worker
    with assms(2) show ?thesis by simp
  next
    case (next_example ex0 args ret out)
    from get_next_example_from_Done [OF next_example(3,2)] assms(3) show ?thesis
      by (auto dest: retrieve_example_effect)
  next
    case (retrieve ex)
    from retrieve_example_effect [OF retrieve(2)] assms(3) show ?thesis by simp
  next
    case finalize
    with assms(3) show ?thesis
      by (auto simp: finalize_example_def split: option.splits)
  next
    case start
    from start_parser_effect [OF start(2)] assms(3) show ?thesis by simp
  next
    case end_parser
    from end_parser_effect [OF end_parser(2)] assms(3,4) show ?thesis by simp
  next
    case cancel
    with assms(3) show ?thesis
      by (simp add: exit_parser_cancel_def notify_one_def)
  next
    case config
    with assms(3) show ?thesis by simp
  qed
  then show "parse_thread q' = Thread pc"
    and "number_of_vectors_parsed q' = number_of_vectors_parsed q"
    by simp_all
qed

subsection \<open>Runs preserve the invariants\<close>

lemma exec_counters_mono:
  "exec acts q = Done q' \<Longrightarrow>
     number_of_vectors_parsed q \<le> number_of_vectors_parsed q'
     \<and> number_of_vectors_read q \<le> number_of_vectors_read q'"
proof (induction acts arbitrary: q)
  case Nil
  then show ?case by simp
next
  case (Cons a as)
  from Cons.prems obtain q1 where q1: "step a q = Done q1" "exec as q1 = Done q'"
    by (auto split: outcome.splits)
  from step_counters_mono [OF q1(1)] Cons.IH [OF q1(2)] show ?case
    by linarith
qed

lemma exec_counters_inv:
  "exec acts q = Done q' \<Longrightarrow> counters_inv q \<Longrightarrow> counters_inv q'"
proof (induction acts arbitrary: q)
  case Nil
  then show ?case by simp
next
  case (Cons a as)
  from Cons.prems(1) obtain q1 where q1: "step a q = Done q1" "exec as q1 = Done q'"
    by (auto split: outcome.splits)
  from step_counters_inv [OF q1(1) Cons.prems(2)] Cons.IH [OF q1(2)] show ?case
    by simp
qed

lemma exec_reading_done:
  "exec acts q = Done q' \<Longrightarrow>
     reading_done q' =
       (reading_done q
        \<or> (\<exists>j < length acts. \<exists>qj. exec (take j acts) q = Done qj \<and> observes_drained (acts ! j) qj))"
proof (induction acts arbitrary: q)
  case Nil
  then show ?case by simp
next
  case (Cons a as)
  from Cons.prems obtain q1 where q1: "step a q = Done q1" "exec as q1 = Done q'"
    by (auto split: outcome.splits)
  have "(\<exists>j < length (a # as). \<exists>qj. exec (take j (a # as)) q = Done qj
            \<and> observes_drained ((a # as) ! j) qj)
        \<longleftrightarrow> observes_drained a q
            \<or> (\<exists>j < length as. \<exists>qj. exec (take j as) q1 = Done qj \<and> observes_drained (as ! j) qj)"
    (is "?L \<longleftrightarrow> ?R")
  proof
    assume ?L
    then obtain j qj where j: "j < length (a # as)" "exec (take j (a # as)) q = Done qj"
      "observes_drained ((a # as) ! j) qj"
      by blast
    show ?R
    proof (cases j)
      case 0
      with j show ?thesis by simp
    next
      case (Suc k)
      with j q1(1) show ?thesis by auto
    qed
  next
    assume ?R
    then show ?L
    proof
      assume "observes_drained a q"
      then have "0 < length (a # as) \<and> exec (take 0 (a # as)) q = Done q
          \<and> observes_drained ((a # as) ! 0) q"
        by simp
      then show ?L by blast
    next
      assume "\<exists>j < length as. \<exists>qj. exec (take j as) q1 = Done qj \<and> observes_drained (as ! j) qj"
      then obtain j qj where "j < length as" "exec (take j as) q1 = Done qj"
        "observes_drained (as ! j) qj"
        by blast
      with q1(1) have "Suc j < length (a # as) \<and> exec (take (Suc j) (a # as)) q = Done qj
          \<and> observes_drained ((a # as) ! Suc j) qj"
        by simp
      then show ?L by blast
    qed
  qed
  with step_reading_done [OF q1(1)] Cons.IH [OF q1(2)] show ?case
    by blast
qed

lemma init_counters_inv: "counters_inv (init p0 input_file is_labelled sz)"
  by (simp add: counters_inv_def init_def INT32_MAX_def)

lemma init_start:
  "number_of_vectors_parsed (init p0 input_file is_labelled sz) = 0"
  "number_of_vectors_read (init p0 input_file is_labelled sz) = 0"
  "reading_done (init p0 input_file is_labelled sz) = False"
  "parse_thread (init p0 input_file is_labelled sz) = parse_thread p0"
  by (simp_all add: init_def)

subsection \<open>The ring under the calls of the parser\<close>

lemma mod_neq_between:
  fixes k R n :: nat
  assumes "R < k" and "k < R + n"
  shows "k mod n \<noteq> R mod n"
proof
  assume "k mod n = R mod n"
  with assms(1) have "n dvd k - R"
    by (simp add: mod_eq_dvd_iff_nat)
  moreover from assms have "0 < k - R" "k - R < n"
    by simp_all
  ultimately show False
    by (auto dest: dvd_imp_le)
qed

lemma ring_ok_get_free_example:
  assumes "get_free_example r = Some (i, r')" and "ring_ok r w"
  shows "ring_ok r' True" and "i = write_idx r mod length (slots r)"
    and "held r' = held r" and "read_idx r' = read_idx r" and "write_idx r' = write_idx r"
    and "length (slots r') = length (slots r)"
proof -
  let ?n = "length (slots r)"
  from assms(1) have i: "i = write_idx r mod ?n" "i < ?n" "state (slots r ! i) = EMPTY"
    and r': "r' = r\<lparr>slots := (slots r)[i := (slots r ! i)\<lparr>state := WRITING\<rparr>]\<rparr>"
    by (auto simp: get_free_example_def Let_def split: if_splits)
  have st: "state (slots r' ! j) = (if j = i then WRITING else state (slots r ! j))"
    if "j < ?n" for j
    using that i(2) by (simp add: r' nth_list_update)
  show "i = write_idx r mod length (slots r)" by (rule i(1))
  show "read_idx r' = read_idx r" "write_idx r' = write_idx r"
    "length (slots r') = length (slots r)"
    by (simp_all add: r')
  have n: "0 < ?n" using i(2) by (cases "slots r") auto
  then have m: "k mod ?n < ?n" for k by simp
  show "held r' = held r"
    using i(3) st [OF m [of "read_idx r"]] by (auto simp: held_def r')
  show "ring_ok r' True"
    unfolding ring_ok_def
  proof (intro conjI allI impI)
    show "write_idx r' \<le> read_idx r' + length (slots r')"
      using assms(2) by (simp add: ring_ok_def r')
  next
    fix k assume k: "read_idx r' \<le> k \<and> k < write_idx r'"
    then have "state (slots r ! (k mod ?n)) = READY
        \<or> k = read_idx r \<and> state (slots r ! (k mod ?n)) = READING"
      using assms(2) by (simp add: ring_ok_def r')
    moreover from this i(3) have "k mod ?n \<noteq> i" by auto
    ultimately show "state (slots r' ! (k mod length (slots r'))) = READY
        \<or> k = read_idx r' \<and> state (slots r' ! (k mod length (slots r'))) = READING"
      using st [OF m [of k]] by (simp add: r')
  next
    fix j assume j: "j < length (slots r')" "state (slots r' ! j) = READING"
    then have "j < ?n" by (simp add: r')
    with j(2) st [of j] have "state (slots r ! j) = READING"
      by (simp split: if_splits)
    with assms(2) \<open>j < ?n\<close> show "j = read_idx r' mod length (slots r')"
      by (simp add: ring_ok_def r')
  next
    show "write_idx r' mod length (slots r') < length (slots r')"
      using n by (simp add: r')
    show "state (slots r' ! (write_idx r' mod length (slots r'))) = WRITING"
      using st [OF i(2)] i(1) by (simp add: r')
  qed
qed


lemma ring_ok_publish:
  assumes "ring_ok r True" and "i = write_idx r mod length (slots r)"
    and "r' = copy_example (write_back p r i) i"
  shows "ring_ok r' False" and "held r' = held r" and "read_idx r' = read_idx r"
    and "write_idx r' = write_idx r + 1" and "length (slots r') = length (slots r)"
proof -
  let ?n = "length (slots r)"
  from assms(1,2) have i: "i < ?n" "state (slots r ! i) = WRITING"
    by (simp_all add: ring_ok_def)
  have n: "0 < ?n" using i(1) by (cases "slots r") auto
  then have m: "k mod ?n < ?n" for k by simp
  have r': "slots r' = (slots r)[i := (slots r ! i)
        \<lparr>fv := current_feature_vector p, length_ex := current_len p,
         label := current_label p, state := READY\<rparr>]"
    "write_idx r' = write_idx r + 1" "read_idx r' = read_idx r"
    using i(1) by (simp_all add: assms(3) copy_example_def write_back_def)
  have st: "state (slots r' ! j) = (if j = i then READY else state (slots r ! j))"
    if "j < ?n" for j
    using that by (simp add: r' nth_list_update)
  show "read_idx r' = read_idx r" "write_idx r' = write_idx r + 1"
    "length (slots r') = length (slots r)"
    by (simp_all add: r')
  have len: "length (slots r') = ?n" by (simp add: r')
  have old: "state (slots r ! (k mod ?n)) = READY
        \<or> k = read_idx r \<and> state (slots r ! (k mod ?n)) = READING"
    if "read_idx r \<le> k" "k < write_idx r" for k
    using assms(1) that by (simp add: ring_ok_def)
  have neq: "k mod ?n \<noteq> i" if "read_idx r \<le> k" "k < write_idx r" for k
    using old [OF that] i(2) by auto
  show "held r' = held r"
  proof (cases "read_idx r mod ?n = i")
    case True
    with i(2) st [OF i(1)] show ?thesis by (simp add: held_def len r')
  next
    case False
    with st [OF m [of "read_idx r"]] show ?thesis by (simp add: held_def len r')
  qed
  show "ring_ok r' False"
    unfolding ring_ok_def len r'(2,3)
  proof (intro conjI allI impI)
    have "write_idx r \<noteq> read_idx r + ?n"
    proof
      assume e: "write_idx r = read_idx r + ?n"
      with n have "read_idx r \<le> read_idx r" "read_idx r < write_idx r" by simp_all
      from neq [OF this] e assms(2) show False by simp
    qed
    with assms(1) show "write_idx r + 1 \<le> read_idx r + ?n"
      by (simp add: ring_ok_def)
  next
    fix k assume k: "read_idx r \<le> k \<and> k < write_idx r + 1"
    show "state (slots r' ! (k mod ?n)) = READY
        \<or> k = read_idx r \<and> state (slots r' ! (k mod ?n)) = READING"
    proof (cases "k = write_idx r")
      case True
      with st [OF i(1)] assms(2) show ?thesis by simp
    next
      case False
      with k have k': "read_idx r \<le> k" "k < write_idx r" by simp_all
      from old [OF k'] neq [OF k'] st [OF m [of k]] show ?thesis by simp
    qed
  next
    fix j assume j: "j < ?n" "state (slots r' ! j) = READING"
    with st [of j] have "state (slots r ! j) = READING"
      by (simp split: if_splits)
    with assms(1) j(1) show "j = read_idx r mod ?n"
      by (simp add: ring_ok_def)
  qed simp_all
qed

lemma ring_ok_get_unused_example:
  assumes "get_unused_example r = Some (i, r')" and "ring_ok r w"
  shows "ring_ok r' w" and "\<not> held r" and "held r'"
    and "read_idx r' = read_idx r" and "write_idx r' = write_idx r"
    and "length (slots r') = length (slots r)"
proof -
  let ?n = "length (slots r)"
  from assms(1) have i: "i = read_idx r mod ?n" "i < ?n" "state (slots r ! i) = READY"
    and r': "r' = r\<lparr>slots := (slots r)[i := (slots r ! i)\<lparr>state := READING\<rparr>]\<rparr>"
    by (auto simp: get_unused_example_def Let_def split: if_splits)
  have n: "0 < ?n" using i(2) by (cases "slots r") auto
  then have m: "k mod ?n < ?n" for k by simp
  have st: "state (slots r' ! j) = (if j = i then READING else state (slots r ! j))"
    if "j < ?n" for j
    using that by (simp add: r' nth_list_update)
  have len: "length (slots r') = ?n" and idx: "read_idx r' = read_idx r" "write_idx r' = write_idx r"
    by (simp_all add: r')
  show "read_idx r' = read_idx r" "write_idx r' = write_idx r"
    "length (slots r') = length (slots r)"
    by (simp_all add: r')
  show "\<not> held r" using i by (simp add: held_def)
  show "held r'" using i st [OF i(2)] by (simp add: held_def len idx)
  show "ring_ok r' w"
    unfolding ring_ok_def len idx
  proof (intro conjI allI impI)
    show "write_idx r \<le> read_idx r + ?n"
      using assms(2) by (simp add: ring_ok_def)
  next
    fix k assume k: "read_idx r \<le> k \<and> k < write_idx r"
    show "state (slots r' ! (k mod ?n)) = READY
        \<or> k = read_idx r \<and> state (slots r' ! (k mod ?n)) = READING"
    proof (cases "k = read_idx r")
      case True
      with st [OF i(2)] i(1) show ?thesis by simp
    next
      case False
      with k assms(2) have "read_idx r < k" "k < read_idx r + ?n"
        by (simp_all add: ring_ok_def)
      then have "k mod ?n \<noteq> i" unfolding i(1) by (rule mod_neq_between)
      moreover from assms(2) k have "state (slots r ! (k mod ?n)) = READY
          \<or> k = read_idx r \<and> state (slots r ! (k mod ?n)) = READING"
        unfolding ring_ok_def by blast
      ultimately show ?thesis
        using st [OF m [of k]] False by simp
    qed
  next
    fix j assume j: "j < ?n" "state (slots r' ! j) = READING"
    show "j = read_idx r mod ?n"
    proof (cases "j = i")
      case True
      with i(1) show ?thesis by simp
    next
      case False
      with j st [of j] have "state (slots r ! j) = READING" by simp
      with assms(2) j(1) show ?thesis by (simp add: ring_ok_def)
    qed
  next
    assume w
    with assms(2) have w': "write_idx r mod ?n < ?n"
      "state (slots r ! (write_idx r mod ?n)) = WRITING"
      by (simp_all add: ring_ok_def)
    then show "write_idx r mod ?n < ?n" by simp
    from w'(2) i(3) have "write_idx r mod ?n \<noteq> i" by auto
    with st [OF w'(1)] w'(2) show "state (slots r' ! (write_idx r mod ?n)) = WRITING"
      by simp
  qed
qed


lemma ring_ok_finalize_example:
  assumes "ring_finalize_example r b = Some r'" and "ring_ok r w"
  shows "ring_ok r' w" and "held r" and "\<not> held r'"
    and "read_idx r' = read_idx r + 1" and "write_idx r' = write_idx r"
    and "length (slots r') = length (slots r)"
proof -
  let ?n = "length (slots r)"
  from assms(1) have i: "read_idx r mod ?n < ?n"
      "state (slots r ! (read_idx r mod ?n)) = READING"
    and r': "r' = r\<lparr>slots := (slots r)[read_idx r mod ?n := (slots r ! (read_idx r mod ?n))
                \<lparr>fv := (if b then None else fv (slots r ! (read_idx r mod ?n))),
                 state := EMPTY\<rparr>],
              read_idx := read_idx r + 1\<rparr>"
    by (auto simp: ring_finalize_example_def Let_def split: if_splits)
  have n: "0 < ?n" using i(1) by (cases "slots r") auto
  then have m: "k mod ?n < ?n" for k by simp
  have st: "state (slots r' ! j) = (if j = read_idx r mod ?n then EMPTY else state (slots r ! j))"
    if "j < ?n" for j
    using that by (simp add: r' nth_list_update)
  have len: "length (slots r') = ?n" and idx: "read_idx r' = read_idx r + 1"
      "write_idx r' = write_idx r"
    by (simp_all add: r')
  show "read_idx r' = read_idx r + 1" "write_idx r' = write_idx r"
    "length (slots r') = length (slots r)"
    by (simp_all add: r')
  show "held r" using i by (simp add: held_def)
  have none: "state (slots r' ! j) \<noteq> READING" if "j < ?n" for j
  proof (cases "j = read_idx r mod ?n")
    case True
    with st [OF that] show ?thesis by simp
  next
    case False
    with assms(2) that have "state (slots r ! j) \<noteq> READING"
      unfolding ring_ok_def by blast
    with st [OF that] False show ?thesis by simp
  qed
  show "\<not> held r'"
    using none [OF m [of "read_idx r + 1"]] by (simp add: held_def len idx)
  show "ring_ok r' w"
    unfolding ring_ok_def len idx
  proof (intro conjI allI impI)
    show "write_idx r \<le> read_idx r + 1 + ?n"
      using assms(2) by (simp add: ring_ok_def)
  next
    fix k assume k: "read_idx r + 1 \<le> k \<and> k < write_idx r"
    with assms(2) have "read_idx r < k" "k < read_idx r + ?n"
      by (simp_all add: ring_ok_def)
    then have "k mod ?n \<noteq> read_idx r mod ?n" by (rule mod_neq_between)
    moreover from k have "read_idx r \<le> k \<and> k < write_idx r" by simp
    with assms(2) have "state (slots r ! (k mod ?n)) = READY
          \<or> k = read_idx r \<and> state (slots r ! (k mod ?n)) = READING"
      unfolding ring_ok_def by blast
    ultimately show "state (slots r' ! (k mod ?n)) = READY
        \<or> k = read_idx r + 1 \<and> state (slots r' ! (k mod ?n)) = READING"
      using st [OF m [of k]] k by simp
  next
    fix j assume j: "j < ?n" "state (slots r' ! j) = READING"
    with none [of j] show "j = (read_idx r + 1) mod ?n" by simp
  next
    assume w
    with assms(2) have w': "write_idx r mod ?n < ?n"
      "state (slots r ! (write_idx r mod ?n)) = WRITING"
      by (simp_all add: ring_ok_def)
    then show "write_idx r mod ?n < ?n" by simp
    from w'(2) i(2) have "write_idx r mod ?n \<noteq> read_idx r mod ?n" by auto
    with st [OF w'(1)] w'(2) show "state (slots r' ! (write_idx r mod ?n)) = WRITING"
      by simp
  qed
qed

lemma ring_ok_init_vector:
  "ring_ok (init_vector r) w = ring_ok r w" "held (init_vector r) = held r"
  "read_idx (init_vector r) = read_idx r" "write_idx (init_vector r) = write_idx r"
  "length (slots (init_vector r)) = length (slots r)"
proof -
  have st: "state (map (\<lambda>s. s\<lparr>fv := Some []\<rparr>) (slots r) ! j) = state (slots r ! j)"
    if "j < length (slots r)" for j
    using that by simp
  have m: "k mod length (slots r) < length (slots r)" if "0 < length (slots r)" for k
    using that by simp
  show "read_idx (init_vector r) = read_idx r" "write_idx (init_vector r) = write_idx r"
    "length (slots (init_vector r)) = length (slots r)"
    by (simp_all add: init_vector_def)
  show "held (init_vector r) = held r"
    by (auto simp: held_def init_vector_def)
  show "ring_ok (init_vector r) w = ring_ok r w"
  proof (cases "length (slots r) = 0")
    case True
    then show ?thesis by (simp add: ring_ok_def init_vector_def)
  next
    case False
    then have "k mod length (slots r) < length (slots r)" for k by simp
    then show ?thesis
      by (simp add: ring_ok_def init_vector_def)
  qed
qed

lemma ring_ok_set_free:
  "ring_ok (ring_set_free_vectors_on_destruct r b) w = ring_ok r w"
  "held (ring_set_free_vectors_on_destruct r b) = held r"
  "read_idx (ring_set_free_vectors_on_destruct r b) = read_idx r"
  "write_idx (ring_set_free_vectors_on_destruct r b) = write_idx r"
  "slots (ring_set_free_vectors_on_destruct r b) = slots r"
  by (simp_all add: ring_ok_def held_def ring_set_free_vectors_on_destruct_def)

lemma ring_ok_init: "ring_ok (ParseBuffer_init n) False" "\<not> held (ParseBuffer_init n)"
  "read_idx (ParseBuffer_init n) = 0" "write_idx (ParseBuffer_init n) = 0"
  by (auto simp: ring_ok_def held_def ParseBuffer_init_def)

lemma ring_ok_weaken: "ring_ok r w \<Longrightarrow> ring_ok r False"
  by (simp add: ring_ok_def)

lemma ring_invI:
  assumes "examples_ring p = Some r" and "ring_ok r (claimed p)"
    and "claimed p \<Longrightarrow> current_example p = Slot (write_idx r mod length (slots r))"
    and "number_of_vectors_parsed p
              = int (write_idx r) - (if parse_thread p = Thread W_count then 1 else 0)"
    and "number_of_vectors_read p = int (read_idx r) + (if held r then 1 else 0)"
  shows "ring_inv p"
  using assms by (simp add: ring_inv_def)

lemma ring_invE:
  assumes "ring_inv p"
  obtains r where "examples_ring p = Some r" and "ring_ok r (claimed p)"
    and "claimed p \<longrightarrow> current_example p = Slot (write_idx r mod length (slots r))"
    and "number_of_vectors_parsed p
              = int (write_idx r) - (if parse_thread p = Thread W_count then 1 else 0)"
    and "number_of_vectors_read p = int (read_idx r) + (if held r then 1 else 0)"
  using assms by (auto simp: ring_inv_def split: option.splits)

lemma ring_inv_worker_step:
  assumes "worker_step p = Done p'" and "ring_inv p"
  shows "ring_inv p'"
proof -
  from assms(1) obtain pc where pc: "parse_thread p = Thread pc" "main_parse_loop pc p = Done p'"
    by (auto simp: worker_step_def split: thread.splits)
  from assms(2) obtain r where r: "examples_ring p = Some r" "ring_ok r (claimed p)"
    "claimed p \<longrightarrow> current_example p = Slot (write_idx r mod length (slots r))"
    "number_of_vectors_parsed p
       = int (write_idx r) - (if parse_thread p = Thread W_count then 1 else 0)"
    "number_of_vectors_read p = int (read_idx r) + (if held r then 1 else 0)"
    by (rule ring_invE)
  show ?thesis
  proof (cases pc)
    case W_while
    with pc r show ?thesis
      by (intro ring_invI [of _ r])
        (auto simp: goto_def claimed_def dest: ring_ok_weaken split: if_splits)
  next
    case W_check
    with pc r show ?thesis
      by (intro ring_invI [of _ r])
        (auto simp: goto_def claimed_def dest: ring_ok_weaken split: if_splits)
  next
    case W_get_free
    with pc r(1) obtain i r' where g: "get_free_example r = Some (i, r')"
      and p': "p' = goto W_read
                 (p\<lparr>examples_ring := Some r',
                    current_example := Slot i,
                    current_feature_vector := fv (slots r' ! i),
                    current_len := length_ex (slots r' ! i),
                    current_label := label (slots r' ! i)\<rparr>)"
      by (auto split: option.splits)
    from ring_ok_get_free_example [OF g r(2)] r(4,5) pc(1) W_get_free show ?thesis
      by (intro ring_invI [of _ r']) (simp_all add: p' goto_def claimed_def)
  next
    case W_read
    with pc have p': "p' = goto W_eof (read_example p) \<or> p' = goto W_publish (read_example p)"
      by (auto simp: Let_def split: if_splits)
    from W_read pc(1) have c: "claimed p" by (simp add: claimed_def)
    from p' r c pc(1) W_read show ?thesis
      by (intro ring_invI [of _ r])
        (auto simp: goto_def claimed_def read_example_frame dest: ring_ok_weaken)
  next
    case W_eof
    with pc r show ?thesis
      by (intro ring_invI [of _ r])
        (auto simp: goto_def claimed_def notify_one_def dest: ring_ok_weaken)
  next
    case W_publish
    with pc(1) have c: "claimed p" by (simp add: claimed_def)
    from r(3) c have ce: "current_example p = Slot (write_idx r mod length (slots r))" by simp
    from c r(2) have lt: "write_idx r mod length (slots r) < length (slots r)"
      by (simp add: ring_ok_def)
    let ?i = "write_idx r mod length (slots r)"
    let ?r' = "copy_example (write_back p r ?i) ?i"
    from pc(2) W_publish ce r(1) lt have p': "p' = goto W_count (p\<lparr>examples_ring := Some ?r'\<rparr>)"
      by simp
    from c r(2) have ok: "ring_ok r True" by simp
    from ring_ok_publish [OF ok refl refl, of p] r(4,5) pc(1) W_publish show ?thesis
      by (intro ring_invI [of _ ?r']) (simp_all add: p' goto_def claimed_def)
  next
    case W_count
    with pc obtain n where n: "incr_int32 (number_of_vectors_parsed p) = Done n"
      and p': "p' = goto W_while (notify_one (p\<lparr>number_of_vectors_parsed := n\<rparr>))"
      by (auto split: outcome.splits)
    from n have "n = number_of_vectors_parsed p + 1"
      by (auto simp: incr_int32_def split: if_splits)
    with r pc(1) W_count show ?thesis
      by (intro ring_invI [of _ r])
        (auto simp: p' goto_def claimed_def notify_one_def)
  next
    case W_returned
    with pc show ?thesis by simp
  qed
qed


lemma ring_inv_frame:
  assumes "ring_inv p" and "examples_ring p' = examples_ring p"
    and "claimed p' = claimed p"
    and "(parse_thread p' = Thread W_count) = (parse_thread p = Thread W_count)"
    and "current_example p' = current_example p"
    and "number_of_vectors_parsed p' = number_of_vectors_parsed p"
    and "number_of_vectors_read p' = number_of_vectors_read p"
  shows "ring_inv p'"
proof -
  from assms(1) obtain r where r: "examples_ring p = Some r" "ring_ok r (claimed p)"
    "claimed p \<longrightarrow> current_example p = Slot (write_idx r mod length (slots r))"
    "number_of_vectors_parsed p
       = int (write_idx r) - (if parse_thread p = Thread W_count then 1 else 0)"
    "number_of_vectors_read p = int (read_idx r) + (if held r then 1 else 0)"
    by (rule ring_invE)
  show ?thesis
  proof (rule ring_invI [of _ r])
    show "examples_ring p' = Some r" using r(1) assms(2) by simp
    show "ring_ok r (claimed p')" using r(2) assms(3) by simp
    show "current_example p' = Slot (write_idx r mod length (slots r))" if "claimed p'"
      using that r(3) assms(3,5) by simp
    show "number_of_vectors_parsed p'
       = int (write_idx r) - (if parse_thread p' = Thread W_count then 1 else 0)"
      using r(4) assms(4,6) by simp
    show "number_of_vectors_read p' = int (read_idx r) + (if held r then 1 else 0)"
      using r(5) assms(7) by simp
  qed
qed

lemma ring_inv_retrieve_example:
  assumes "retrieve_example p = Done (ex, p')" and "ring_inv p"
  shows "ring_inv p'"
proof (cases "ex = Null")
  case True
  with assms(1) have "p' = p \<or> p' = notify_one (p\<lparr>reading_done := True\<rparr>)"
    by (auto simp: retrieve_example_def incr_int32_def
        split: if_splits option.splits outcome.splits)
  with assms(2) show ?thesis
    by (auto simp: notify_one_def claimed_def intro: ring_inv_frame)
next
  case False
  from assms(2) obtain r where r: "examples_ring p = Some r" "ring_ok r (claimed p)"
    "claimed p \<longrightarrow> current_example p = Slot (write_idx r mod length (slots r))"
    "number_of_vectors_parsed p
       = int (write_idx r) - (if parse_thread p = Thread W_count then 1 else 0)"
    "number_of_vectors_read p = int (read_idx r) + (if held r then 1 else 0)"
    by (rule ring_invE)
  from assms(1) False r(1) obtain i r' where g: "get_unused_example r = Some (i, r')"
    and p': "p' = p\<lparr>examples_ring := Some r',
                     number_of_vectors_read := number_of_vectors_read p + 1\<rparr>"
    by (auto simp: retrieve_example_def incr_int32_def
        split: if_splits option.splits outcome.splits)
  have cl: "claimed p' = claimed p"
    by (simp add: p' claimed_def)
  note u = ring_ok_get_unused_example [OF g r(2)]
  show ?thesis
  proof (rule ring_invI [of _ r'])
    show "examples_ring p' = Some r'" by (simp add: p')
    show "ring_ok r' (claimed p')" using u(1) cl by simp
    show "current_example p' = Slot (write_idx r' mod length (slots r'))" if "claimed p'"
      using that r(3) cl u(5,6) by (simp add: p')
    show "number_of_vectors_parsed p'
       = int (write_idx r') - (if parse_thread p' = Thread W_count then 1 else 0)"
      using r(4) u(5) by (simp add: p')
    show "number_of_vectors_read p' = int (read_idx r') + (if held r' then 1 else 0)"
      using r(5) u(2,3,4) by (simp add: p')
  qed
qed

lemma ring_inv_finalize_example:
  assumes "finalize_example p = Done p'" and "ring_inv p"
  shows "ring_inv p'"
proof -
  from assms(2) obtain r where r: "examples_ring p = Some r" "ring_ok r (claimed p)"
    "claimed p \<longrightarrow> current_example p = Slot (write_idx r mod length (slots r))"
    "number_of_vectors_parsed p
       = int (write_idx r) - (if parse_thread p = Thread W_count then 1 else 0)"
    "number_of_vectors_read p = int (read_idx r) + (if held r then 1 else 0)"
    by (rule ring_invE)
  from assms(1) r(1) obtain r' where
    f: "ring_finalize_example r (free_after_release p) = Some r'"
    and p': "p' = p\<lparr>examples_ring := Some r'\<rparr>"
    by (auto simp: finalize_example_def split: option.splits)
  have cl: "claimed p' = claimed p"
    by (simp add: p' claimed_def)
  note u = ring_ok_finalize_example [OF f r(2)]
  show ?thesis
  proof (rule ring_invI [of _ r'])
    show "examples_ring p' = Some r'" by (simp add: p')
    show "ring_ok r' (claimed p')" using u(1) cl by simp
    show "current_example p' = Slot (write_idx r' mod length (slots r'))" if "claimed p'"
      using that r(3) cl u(5,6) by (simp add: p')
    show "number_of_vectors_parsed p'
       = int (write_idx r') - (if parse_thread p' = Thread W_count then 1 else 0)"
      using r(4) u(5) by (simp add: p')
    show "number_of_vectors_read p' = int (read_idx r') + (if held r' then 1 else 0)"
      using r(5) u(2,3,4) by (simp add: p')
  qed
qed

lemma ring_inv_start_parser:
  assumes "start_parser p = Done p'" and "ring_inv p"
  shows "ring_inv p'"
proof -
  from assms(2) obtain r where r: "examples_ring p = Some r" "ring_ok r (claimed p)"
    "number_of_vectors_parsed p
       = int (write_idx r) - (if parse_thread p = Thread W_count then 1 else 0)"
    "number_of_vectors_read p = int (read_idx r) + (if held r then 1 else 0)"
    by (rule ring_invE)
  from assms(1) r(1) have t: "parse_thread p = NoThread"
    and p': "p' = p\<lparr>examples_ring := Some (init_vector r), keep_running := True,
                     parse_thread := Thread W_while\<rparr>"
    by (auto simp: start_parser_def thread_move_assign_def joinable_def Let_def
        split: if_splits thread.splits)
  from r t show ?thesis
    by (intro ring_invI [of _ "init_vector r"])
      (simp_all add: p' claimed_def ring_ok_init_vector)
qed

lemma ring_inv_end_parser:
  assumes "end_parser p = Done p'" and "ring_inv p"
  shows "ring_inv p'"
proof -
  from assms(1) have "p' = p \<or> parse_thread p = Thread W_returned \<and> p' = p\<lparr>parse_thread := NoThread\<rparr>"
    by (auto simp: end_parser_def join_def joinable_def split: if_splits thread.splits)
  with assms(2) show ?thesis
    by (auto simp: claimed_def intro: ring_inv_frame)
qed

lemma ring_inv_step:
  assumes "step a p = Done p'" and "ring_inv p"
  shows "ring_inv p'"
proof (cases a)
  case A_worker
  with assms show ?thesis by (simp add: ring_inv_worker_step)
next
  case (A_get_next_example f l lb)
  with assms(1) obtain ret out where
    "get_next_example_from Uninitialised p (f, l, lb) = Done (ret, out, p')"
    by (auto simp: map_outcome_def get_next_example_def split: outcome.splits)
  from get_next_example_from_Done [OF this] assms(2) show ?thesis
    by (auto dest: ring_inv_retrieve_example)
next
  case (A_get_next_example_woken f l lb)
  with assms(1) obtain ret out where
    "get_next_example_from Null p (f, l, lb) = Done (ret, out, p')"
    by (auto simp: map_outcome_def get_next_example_woken_def split: outcome.splits)
  from get_next_example_from_Done [OF this] assms(2) show ?thesis
    by (auto dest: ring_inv_retrieve_example)
next
  case A_retrieve_example
  with assms(1) obtain ex where "retrieve_example p = Done (ex, p')"
    by (auto simp: map_outcome_def split: outcome.splits)
  then show ?thesis using assms(2) by (rule ring_inv_retrieve_example)
next
  case A_finalize_example
  with assms show ?thesis by (simp add: ring_inv_finalize_example)
next
  case A_start_parser
  with assms show ?thesis by (simp add: ring_inv_start_parser)
next
  case A_end_parser
  with assms show ?thesis by (simp add: ring_inv_end_parser)
next
  case A_exit_cancel
  with assms show ?thesis
    by (auto simp: exit_parser_cancel_def notify_one_def claimed_def intro: ring_inv_frame)
next
  case A_is_running
  with assms show ?thesis by simp
next
  case (A_set_free_vector_after_release b)
  with assms show ?thesis
    by (auto simp: set_free_vector_after_release_def claimed_def intro: ring_inv_frame)
next
  case (A_set_free_vectors_on_destruct b)
  with assms show ?thesis
    by (auto simp: set_free_vectors_on_destruct_def ring_inv_def claimed_def ring_ok_set_free
        split: option.splits)
next
  case (A_set_read_vector f)
  with assms show ?thesis
    by (auto simp: set_read_vector_def claimed_def intro: ring_inv_frame)
next
  case (A_set_read_vector_and_label f)
  with assms show ?thesis
    by (auto simp: set_read_vector_and_label_def claimed_def intro: ring_inv_frame)
qed

lemma ring_inv_exec:
  "exec acts p = Done p' \<Longrightarrow> ring_inv p \<Longrightarrow> ring_inv p'"
proof (induction acts arbitrary: p)
  case Nil
  then show ?case by simp
next
  case (Cons a as)
  from Cons.prems(1) obtain p1 where p1: "step a p = Done p1" "exec as p1 = Done p'"
    by (auto split: outcome.splits)
  from ring_inv_step [OF p1(1) Cons.prems(2)] Cons.IH [OF p1(2)] show ?case
    by simp
qed

lemma ring_inv_init:
  "\<not> joinable (parse_thread p0) \<Longrightarrow> ring_inv (init p0 input_file is_labelled sz)"
  by (simp add: ring_inv_def init_def claimed_def joinable_def ring_ok_init
      split: thread.splits)

text \<open>
  When an example is parsed and not read, and the consumer holds no slot, the slot at
  the read cursor is ready.
\<close>

lemma ring_inv_ready:
  assumes "ring_inv p" and "examples_ring p = Some r"
    and "number_of_vectors_read p < number_of_vectors_parsed p"
    and "READING \<notin> set (map state (slots r))"
  shows "\<exists>i r'. get_unused_example r = Some (i, r')"
proof -
  from assms(1,2) have ok: "ring_ok r (claimed p)"
    and c: "number_of_vectors_parsed p \<le> int (write_idx r)"
      "number_of_vectors_read p = int (read_idx r) + (if held r then 1 else 0)"
    by (auto simp: ring_inv_def)
  from c assms(3) have lt: "read_idx r < write_idx r"
    by (auto split: if_splits)
  with ok have n: "0 < length (slots r)"
    by (auto simp: ring_ok_def)
  then have m: "read_idx r mod length (slots r) < length (slots r)"
    by simp
  with assms(4) have "state (slots r ! (read_idx r mod length (slots r))) \<noteq> READING"
    by (metis (no_types, lifting) length_map nth_map nth_mem)
  moreover from ok lt have "state (slots r ! (read_idx r mod length (slots r))) = READY
      \<or> state (slots r ! (read_idx r mod length (slots r))) = READING"
    unfolding ring_ok_def by blast
  ultimately show ?thesis
    using m by (simp add: get_unused_example_def Let_def)
qed

subsection \<open>Worked runs\<close>

lemma run_to_end_of_stream:
  "\<exists>p. exec [A_start_parser, A_worker, A_worker, A_worker, A_worker, A_worker]
         (parser_on []) = Done p
       \<and> parsing_done p \<and> keep_running p \<and> \<not> reading_done p
       \<and> number_of_vectors_read p = 0 \<and> number_of_vectors_parsed p = 0"
  by (simp add: eval_defs)

lemma run_one_example:
  "\<exists>p r. exec [A_start_parser, A_worker, A_worker, A_worker, A_worker, A_worker, A_worker]
         (parser_on [(Some [7, 8], 2, 1)]) = Done p
       \<and> \<not> parsing_done p
       \<and> number_of_vectors_read p = 0 \<and> number_of_vectors_parsed p = 1
       \<and> examples_ring p = Some r
       \<and> READING \<notin> set (map state (slots r))
       \<and> read_idx r mod length (slots r) = 0"
  by (simp add: eval_defs numeral_2_eq_2)

lemma run_to_read_at_end:
  "\<exists>p r. exec [A_start_parser, A_worker, A_worker, A_worker] (parser_on []) = Done p
       \<and> parse_thread p = Thread W_read \<and> returned_length p < 0
       \<and> \<not> parsing_done p \<and> number_of_vectors_parsed p = 0
       \<and> examples_ring p = Some r \<and> write_idx r = 0 \<and> state (slots r ! 0) = WRITING
       \<and> (\<forall>p1. worker_step p = Done p1 \<longrightarrow> step A_retrieve_example p1 = Done p1)"
  by (simp add: eval_defs)

lemma run_drained:
  "\<exists>p pj. exec [A_start_parser, A_worker, A_worker, A_worker, A_worker, A_worker,
              A_get_next_example None 0 0] (parser_on []) = Done p
       \<and> exec (take 6 [A_start_parser, A_worker, A_worker, A_worker, A_worker, A_worker,
              A_get_next_example None 0 0]) (parser_on []) = Done pj
       \<and> \<not> reading_done pj
       \<and> observes_drained ([A_start_parser, A_worker, A_worker, A_worker, A_worker, A_worker,
              A_get_next_example None 0 0] ! 6) pj
       \<and> step (A_get_next_example None 0 0) p = Done p"
  by (simp add: eval_defs observes_drained_def calls_retrieve_def)

subsection \<open>Configuration and observers\<close>

text \<open>
  Claim C10.  Every call of \<^verbatim>\<open>init\<close> sets \<^verbatim>\<open>free_after_release\<close> to true, whatever
  an earlier \<^verbatim>\<open>set_free_vector_after_release\<close> had stored; only a call of the setter
  after \<^verbatim>\<open>init\<close> is kept.
\<close>

theorem init_resets_free_after_release:
  "free_after_release (init (set_free_vector_after_release p b) input_file is_labelled sz) = True
   \<and> free_after_release (set_free_vector_after_release (init p input_file is_labelled sz) b) = b"
  by (simp add: init_def set_free_vector_after_release_def)

text \<open>
  Claim C2 says that \<^verbatim>\<open>is_running()\<close> is true if and only if parsing is not done or
  unconsumed examples remain.  The code answers true exactly when parsing is done and
  reading is not: while the worker is still parsing it answers false, and so it does
  right after \<^verbatim>\<open>init\<close>, where parsing is not done.
\<close>

theorem is_running_only_while_draining:
  "is_running p = (parsing_done p \<and> \<not> reading_done p)
   \<and> parsing_done (init p input_file is_labelled sz) = False
   \<and> is_running (init p input_file is_labelled sz) = False"
  by (simp add: is_running_def init_def)

text \<open>
  Claim C4 says that a second \<^verbatim>\<open>start_parser\<close> on a parser whose worker is still
  parsing signals an error to the caller and spawns no second thread.  The guard of
  \<^verbatim>\<open>start_parser\<close> is \<^verbatim>\<open>is_running()\<close>, which is false while parsing is not done: no
  exception is thrown, a second \<^verbatim>\<open>std::thread\<close> is constructed, and its move-assignment
  to the joinable \<^verbatim>\<open>parse_thread\<close> ends the process in \<^verbatim>\<open>std::terminate\<close>.
\<close>

theorem start_parser_while_parsing:
  "\<not> parsing_done p \<Longrightarrow> joinable (parse_thread p) \<Longrightarrow> start_parser p = Failed StdTerminate"
  by (simp add: start_parser_def is_running_def thread_move_assign_def Let_def
      split: option.splits)

theorem start_parser_while_parsing_witness:
  "\<exists>s. start_parser (parser_on []) = Done s
      \<and> parse_thread s = Thread W_while \<and> \<not> parsing_done s
      \<and> start_parser s = Failed StdTerminate"
proof -
  have "\<exists>s. start_parser (parser_on []) = Done s
      \<and> parse_thread s = Thread W_while \<and> \<not> parsing_done s"
    by (simp add: parser_on_def init_def InputParser_ctor_def raw_parser_def
        start_parser_def is_running_def thread_move_assign_def joinable_def)
  then obtain s where s: "start_parser (parser_on []) = Done s"
    "parse_thread s = Thread W_while" "\<not> parsing_done s"
    by blast
  from s(2) have "joinable (parse_thread s)"
    by (simp add: joinable_def)
  with s(3) have "start_parser s = Failed StdTerminate"
    by (rule start_parser_while_parsing)
  with s show ?thesis
    by blast
qed

subsection \<open>Joining\<close>

text \<open>
  Claim C9.  \<^verbatim>\<open>end_parser\<close> on a parser whose thread handle is not joinable returns
  with the parser unchanged: so it does on a parser that was only constructed, and on
  the parser a completed \<^verbatim>\<open>end_parser\<close> or \<^verbatim>\<open>exit_parser\<close> leaves behind, whose handle
  is not joinable.  When the handle is joinable the call is the join, and changes the
  handle only.
\<close>

theorem end_parser_safe:
  "(\<not> joinable (parse_thread p) \<longrightarrow> end_parser p = Done p)
   \<and> end_parser (InputParser_ctor m) = Done (InputParser_ctor m)
   \<and> (end_parser q = Done q' \<longrightarrow> \<not> joinable (parse_thread q') \<and> end_parser q' = Done q')
   \<and> (exit_parser q = Done q'' \<longrightarrow> \<not> joinable (parse_thread q'') \<and> end_parser q'' = Done q'')
   \<and> (joinable (parse_thread q) \<longrightarrow>
        end_parser q = map_outcome (\<lambda>t. q\<lparr>parse_thread := t\<rparr>) (join (parse_thread q)))"
  by (auto simp: end_parser_def exit_parser_def joinable_def join_def InputParser_ctor_def
      map_outcome_def Let_def split: thread.splits if_splits outcome.splits)

theorem end_parser_safe_witness:
  "\<not> joinable (parse_thread (parser_on []))
   \<and> end_parser (parser_on []) = Done (parser_on [])
   \<and> joinable (parse_thread (goto W_returned (parser_on [])))
   \<and> end_parser (goto W_returned (parser_on [])) = Done (parser_on [])
   \<and> exit_parser (goto W_returned (parser_on [])) = Done (exit_parser_cancel (parser_on []))
   \<and> end_parser (exit_parser_cancel (parser_on [])) = Done (exit_parser_cancel (parser_on []))"
  using end_parser_safe [of "parser_on []" raw_parser "goto W_returned (parser_on [])"
      "parser_on []" "exit_parser_cancel (parser_on [])"]
  by (simp add: parser_on_def init_def InputParser_ctor_def raw_parser_def goto_def
      joinable_def join_def end_parser_def exit_parser_def exit_parser_cancel_def
      notify_one_def map_outcome_def)

subsection \<open>The worker at the end of the stream\<close>

text \<open>
  Claim C6.  When the read of the source comes back with a negative length, the step
  of the worker that made the read leaves the ring, \<^verbatim>\<open>number_of_vectors_parsed\<close> and
  \<^verbatim>\<open>parsing_done\<close> as they were and goes to line 532; no call of the consumer
  moves it from there or counts an example; and there, whatever the consumer has done
  meanwhile, the worker's next step (one critical section) sets
  \<^verbatim>\<open>parsing_done\<close>, notifies the condition once and returns from the loop, after
  which the worker takes no step.  The slot it had claimed is not published: the ring
  is not touched, and nothing is counted.
\<close>

theorem worker_end_of_stream:
  assumes "parse_thread p = Thread W_read" and "returned_length p < 0"
  shows "(\<exists>p1. worker_step p = Done p1
            \<and> parse_thread p1 = Thread W_eof
            \<and> examples_ring p1 = examples_ring p
            \<and> number_of_vectors_parsed p1 = number_of_vectors_parsed p
            \<and> parsing_done p1 = parsing_done p
            \<and> examples_state_changed p1 = examples_state_changed p)
         \<and> (\<forall>a q q'. parse_thread q = Thread W_eof \<and> a \<noteq> A_worker \<and> step a q = Done q' \<longrightarrow>
               parse_thread q' = Thread W_eof
               \<and> number_of_vectors_parsed q' = number_of_vectors_parsed q)
         \<and> (\<forall>q. parse_thread q = Thread W_eof \<longrightarrow>
               worker_step q =
                 Done (q\<lparr>parsing_done := True,
                          examples_state_changed := examples_state_changed q + 1,
                          parse_thread := Thread W_returned\<rparr>))
         \<and> (\<forall>q. parse_thread q = Thread W_returned \<longrightarrow> worker_step q = Blocked)"
proof -
  have "\<forall>a q q'. parse_thread q = Thread W_eof \<and> a \<noteq> A_worker \<and> step a q = Done q' \<longrightarrow>
               parse_thread q' = Thread W_eof
               \<and> number_of_vectors_parsed q' = number_of_vectors_parsed q"
    by (auto dest: step_other_thread)
  with assms show ?thesis
    by (simp add: worker_step_def Let_def current_len_read_example read_example_frame
        goto_def notify_one_def)
qed

theorem worker_end_of_stream_witness:
  "\<exists>p p1 p2 r. exec [A_start_parser, A_worker, A_worker, A_worker] (parser_on []) = Done p
       \<and> parse_thread p = Thread W_read \<and> returned_length p < 0 \<and> \<not> parsing_done p
       \<and> worker_step p = Done p1 \<and> worker_step p1 = Done p2
       \<and> parsing_done p2 \<and> parse_thread p2 = Thread W_returned
       \<and> examples_state_changed p2 = examples_state_changed p + 1
       \<and> number_of_vectors_parsed p2 = 0
       \<and> examples_ring p2 = Some r \<and> write_idx r = 0 \<and> state (slots r ! 0) = WRITING
       \<and> worker_step p2 = Blocked
       \<and> step A_retrieve_example p1 = Done p1 \<and> parse_thread p1 = Thread W_eof"
proof -
  from run_to_read_at_end obtain p r where p:
    "exec [A_start_parser, A_worker, A_worker, A_worker] (parser_on []) = Done p"
    "parse_thread p = Thread W_read" "returned_length p < 0"
    "\<not> parsing_done p" "number_of_vectors_parsed p = 0"
    "examples_ring p = Some r" "write_idx r = 0" "state (slots r ! 0) = WRITING"
    "\<forall>p1. worker_step p = Done p1 \<longrightarrow> step A_retrieve_example p1 = Done p1"
    by blast
  note w = worker_end_of_stream [OF p(2,3)]
  from w obtain p1 where p1: "worker_step p = Done p1" "parse_thread p1 = Thread W_eof"
    "examples_ring p1 = examples_ring p"
    "number_of_vectors_parsed p1 = number_of_vectors_parsed p"
    "examples_state_changed p1 = examples_state_changed p"
    by blast
  define p2 where "p2 = p1\<lparr>parsing_done := True,
      examples_state_changed := examples_state_changed p1 + 1,
      parse_thread := Thread W_returned\<rparr>"
  from w p1(2) have s2: "worker_step p1 = Done p2"
    unfolding p2_def by blast
  have t: "parse_thread p2 = Thread W_returned"
    by (simp add: p2_def)
  with w have b: "worker_step p2 = Blocked"
    by blast
  from p(9) p1(1) have o: "step A_retrieve_example p1 = Done p1"
    by blast
  with w p1(2) have "parse_thread p1 = Thread W_eof"
    by blast
  with b o p p1 s2 t show ?thesis
    by (intro exI [of _ p] exI [of _ p1] exI [of _ p2] exI [of _ r]) (simp add: p2_def)
qed

text \<open>
  Claim C3 says that a record of length 0 ends the stream like a negative length: the
  worker sets \<^verbatim>\<open>parsing_done\<close> and the record is not published.  In the code
  \<^verbatim>\<open>get_vector_and_label\<close> reports the record as a failure (it returns 0 for
  \<open>length < 1\<close>), but \<^verbatim>\<open>main_parse_loop\<close> drops that result and tests
  \<open>current_len < 0\<close>: on the source of the spec's scenario 6 (one good example, then a
  record of length 0) the worker publishes and counts both records, parsing is not
  done, and the second \<^verbatim>\<open>get_next_example\<close> returns 1 with the record of length 0.
\<close>

theorem zero_length_record_is_published:
  "\<exists>s s1 s2 s3.
      exec [A_start_parser,
            A_worker, A_worker, A_worker, A_worker, A_worker, A_worker,
            A_worker, A_worker, A_worker, A_worker, A_worker, A_worker]
        (parser_on [(Some [1], 1, 0), (Some [], 0, 5)]) = Done s
      \<and> \<not> parsing_done s
      \<and> number_of_vectors_parsed s = 2
      \<and> get_next_example s (None, 7, 7) = Done (1, (Some [1], 1, 0), s1)
      \<and> finalize_example s1 = Done s2
      \<and> get_next_example s2 (None, 7, 7) = Done (1, (Some [], 0, 5), s3)"
  by (simp add: eval_defs)

subsection \<open>\<^verbatim>\<open>retrieve_example\<close> and \<^verbatim>\<open>get_next_example\<close>\<close>

text \<open>
  Claim C1.  In every state a run reaches after \<^verbatim>\<open>init\<close>, a call of
  \<^verbatim>\<open>retrieve_example\<close> does one of three things.  If parsing is done and every parsed
  example has been read, it sets \<^verbatim>\<open>reading_done\<close>, notifies the condition and returns
  null.  Otherwise, if nothing has been parsed or every parsed example has been read, it
  returns null and changes nothing.  Otherwise it asks the ring for the unused example,
  and returns the slot the ring hands out (the slot at the read cursor, which was
  \<open>READY\<close> and is now \<open>READING\<close>) with \<^verbatim>\<open>number_of_vectors_read\<close> incremented;
  and the ring does hand out a slot whenever the consumer holds none (no slot is
  \<open>READING\<close>: the example handed out before has been finalized), in a run of a parser
  that was initialised while it had no parse thread.
  Moreover \<^verbatim>\<open>reading_done\<close> holds in a state of the run exactly when an earlier call of
  \<^verbatim>\<open>retrieve_example\<close> in the run found parsing done and every parsed example read;
  and once it holds no step takes it away.
\<close>

theorem retrieve_example_cases:
  assumes "exec acts (init p0 input_file is_labelled sz) = Done p"
  shows
    "(parsing_done p \<and> number_of_vectors_read p = number_of_vectors_parsed p \<longrightarrow>
        retrieve_example p =
          Done (Null, p\<lparr>reading_done := True,
                         examples_state_changed := examples_state_changed p + 1\<rparr>))
     \<and> (\<not> (parsing_done p \<and> number_of_vectors_read p = number_of_vectors_parsed p)
          \<and> (number_of_vectors_parsed p = 0
              \<or> number_of_vectors_read p = number_of_vectors_parsed p) \<longrightarrow>
        retrieve_example p = Done (Null, p))
     \<and> (\<not> (parsing_done p \<and> number_of_vectors_read p = number_of_vectors_parsed p)
          \<and> number_of_vectors_parsed p \<noteq> 0
          \<and> number_of_vectors_read p \<noteq> number_of_vectors_parsed p \<longrightarrow>
        (\<exists>r. examples_ring p = Some r
           \<and> retrieve_example p =
               (case get_unused_example r of
                  None \<Rightarrow> Blocked
                | Some (i, r') \<Rightarrow>
                    Done (Slot i, p\<lparr>examples_ring := Some r',
                                     number_of_vectors_read := number_of_vectors_read p + 1\<rparr>))
           \<and> (\<forall>i r'. get_unused_example r = Some (i, r') \<longrightarrow>
                 i = read_idx r mod length (slots r) \<and> state (slots r ! i) = READY
                 \<and> state (slots r' ! i) = READING)
           \<and> (\<not> joinable (parse_thread p0) \<and> READING \<notin> set (map state (slots r)) \<longrightarrow>
                 (\<exists>i r'. get_unused_example r = Some (i, r')))))
     \<and> (reading_done p \<longleftrightarrow>
          (\<exists>j < length acts. \<exists>pj.
              exec (take j acts) (init p0 input_file is_labelled sz) = Done pj
              \<and> observes_drained (acts ! j) pj))
     \<and> (\<forall>a p'. step a p = Done p' \<and> reading_done p \<longrightarrow> reading_done p')"
proof -
  from exec_counters_inv [OF assms init_counters_inv]
  have inv: "0 \<le> number_of_vectors_read p"
    "number_of_vectors_read p \<le> number_of_vectors_parsed p"
    "number_of_vectors_parsed p \<le> INT32_MAX" "examples_ring p \<noteq> None"
    by (simp_all add: counters_inv_def)
  have c1: "parsing_done p \<and> number_of_vectors_read p = number_of_vectors_parsed p \<longrightarrow>
        retrieve_example p =
          Done (Null, p\<lparr>reading_done := True,
                         examples_state_changed := examples_state_changed p + 1\<rparr>)"
    by (simp add: retrieve_example_def notify_one_def)
  have c2: "\<not> (parsing_done p \<and> number_of_vectors_read p = number_of_vectors_parsed p)
          \<and> (number_of_vectors_parsed p = 0
              \<or> number_of_vectors_read p = number_of_vectors_parsed p) \<longrightarrow>
        retrieve_example p = Done (Null, p)"
    by (auto simp: retrieve_example_def)
  have c3: "\<not> (parsing_done p \<and> number_of_vectors_read p = number_of_vectors_parsed p)
          \<and> number_of_vectors_parsed p \<noteq> 0
          \<and> number_of_vectors_read p \<noteq> number_of_vectors_parsed p \<longrightarrow>
        (\<exists>r. examples_ring p = Some r
           \<and> retrieve_example p =
               (case get_unused_example r of
                  None \<Rightarrow> Blocked
                | Some (i, r') \<Rightarrow>
                    Done (Slot i, p\<lparr>examples_ring := Some r',
                                     number_of_vectors_read := number_of_vectors_read p + 1\<rparr>))
           \<and> (\<forall>i r'. get_unused_example r = Some (i, r') \<longrightarrow>
                 i = read_idx r mod length (slots r) \<and> state (slots r ! i) = READY
                 \<and> state (slots r' ! i) = READING)
           \<and> (\<not> joinable (parse_thread p0) \<and> READING \<notin> set (map state (slots r)) \<longrightarrow>
                 (\<exists>i r'. get_unused_example r = Some (i, r'))))"
  proof
    assume h: "\<not> (parsing_done p \<and> number_of_vectors_read p = number_of_vectors_parsed p)
          \<and> number_of_vectors_parsed p \<noteq> 0
          \<and> number_of_vectors_read p \<noteq> number_of_vectors_parsed p"
    from inv(4) obtain r where r: "examples_ring p = Some r"
      by blast
    from h inv have n: "\<not> number_of_vectors_parsed p \<le> 0"
      "number_of_vectors_read p \<noteq> INT32_MAX"
      "number_of_vectors_read p < number_of_vectors_parsed p"
      by linarith+
    from h n r have e: "retrieve_example p =
               (case get_unused_example r of
                  None \<Rightarrow> Blocked
                | Some (i, r') \<Rightarrow>
                    Done (Slot i, p\<lparr>examples_ring := Some r',
                                     number_of_vectors_read := number_of_vectors_read p + 1\<rparr>))"
      by (auto simp: retrieve_example_def incr_int32_def split: option.splits)
    have d: "\<exists>i r'. get_unused_example r = Some (i, r')"
      if "\<not> joinable (parse_thread p0) \<and> READING \<notin> set (map state (slots r))"
    proof -
      from that have "ring_inv (init p0 input_file is_labelled sz)"
        by (simp add: ring_inv_init)
      with assms have "ring_inv p"
        by (rule ring_inv_exec)
      from this r n(3) that show ?thesis
        by (simp add: ring_inv_ready)
    qed
    from r e d get_unused_example_Some [of r] show "\<exists>r. examples_ring p = Some r
           \<and> retrieve_example p =
               (case get_unused_example r of
                  None \<Rightarrow> Blocked
                | Some (i, r') \<Rightarrow>
                    Done (Slot i, p\<lparr>examples_ring := Some r',
                                     number_of_vectors_read := number_of_vectors_read p + 1\<rparr>))
           \<and> (\<forall>i r'. get_unused_example r = Some (i, r') \<longrightarrow>
                 i = read_idx r mod length (slots r) \<and> state (slots r ! i) = READY
                 \<and> state (slots r' ! i) = READING)
           \<and> (\<not> joinable (parse_thread p0) \<and> READING \<notin> set (map state (slots r)) \<longrightarrow>
                 (\<exists>i r'. get_unused_example r = Some (i, r')))"
      by blast
  qed
  have c4: "reading_done p \<longleftrightarrow>
          (\<exists>j < length acts. \<exists>pj.
              exec (take j acts) (init p0 input_file is_labelled sz) = Done pj
              \<and> observes_drained (acts ! j) pj)"
    using exec_reading_done [OF assms] by (simp add: init_start)
  have c5: "\<forall>a p'. step a p = Done p' \<and> reading_done p \<longrightarrow> reading_done p'"
    by (auto dest: step_reading_done)
  from c1 c2 c3 c4 c5 show ?thesis
    by blast
qed

theorem retrieve_example_cases_witness:
  "(\<exists>p p'. exec [A_start_parser, A_worker, A_worker, A_worker, A_worker, A_worker]
              (parser_on []) = Done p
          \<and> parsing_done p \<and> number_of_vectors_read p = number_of_vectors_parsed p
          \<and> retrieve_example p = Done (Null, p') \<and> reading_done p'
          \<and> examples_state_changed p' = examples_state_changed p + 1)
   \<and> (\<not> parsing_done (parser_on [(Some [7, 8], 2, 1)])
        \<and> number_of_vectors_parsed (parser_on [(Some [7, 8], 2, 1)]) = 0
        \<and> retrieve_example (parser_on [(Some [7, 8], 2, 1)])
            = Done (Null, parser_on [(Some [7, 8], 2, 1)])
        \<and> \<not> reading_done (parser_on [(Some [7, 8], 2, 1)]))
   \<and> (\<exists>p p'. exec [A_start_parser, A_worker, A_worker, A_worker, A_worker, A_worker, A_worker]
              (parser_on [(Some [7, 8], 2, 1)]) = Done p
          \<and> \<not> parsing_done p
          \<and> number_of_vectors_parsed p = 1 \<and> number_of_vectors_read p = 0
          \<and> retrieve_example p = Done (Slot 0, p') \<and> number_of_vectors_read p' = 1)
   \<and> (\<exists>p pj. exec [A_start_parser, A_worker, A_worker, A_worker, A_worker, A_worker,
                      A_get_next_example None 0 0] (parser_on []) = Done p
          \<and> exec [A_start_parser, A_worker, A_worker, A_worker, A_worker, A_worker]
               (parser_on []) = Done pj
          \<and> \<not> reading_done pj
          \<and> observes_drained (A_get_next_example None 0 0) pj
          \<and> reading_done p
          \<and> step (A_get_next_example None 0 0) p = Done p)"
proof -
  from run_to_end_of_stream obtain p where p:
    "exec [A_start_parser, A_worker, A_worker, A_worker, A_worker, A_worker]
       (parser_on []) = Done p"
    "parsing_done p" "number_of_vectors_read p = 0" "number_of_vectors_parsed p = 0"
    by blast
  from retrieve_example_cases [OF p(1) [unfolded parser_on_def]] p(2,3,4)
  have "retrieve_example p =
          Done (Null, p\<lparr>reading_done := True,
                         examples_state_changed := examples_state_changed p + 1\<rparr>)"
    by simp
  with p have c1: "\<exists>p p'. exec [A_start_parser, A_worker, A_worker, A_worker, A_worker, A_worker]
              (parser_on []) = Done p
          \<and> parsing_done p \<and> number_of_vectors_read p = number_of_vectors_parsed p
          \<and> retrieve_example p = Done (Null, p') \<and> reading_done p'
          \<and> examples_state_changed p' = examples_state_changed p + 1"
    by simp
  let ?q = "parser_on [(Some [7, 8], 2, 1)]"
  have e: "exec [] (init (InputParser_ctor raw_parser) [(Some [7, 8], 2, 1)] True 2) = Done ?q"
    by (simp add: parser_on_def)
  have q: "\<not> parsing_done ?q" "number_of_vectors_parsed ?q = 0"
    by (simp_all add: parser_on_def init_def)
  from retrieve_example_cases [OF e] q
  have c2: "\<not> parsing_done ?q \<and> number_of_vectors_parsed ?q = 0
        \<and> retrieve_example ?q = Done (Null, ?q) \<and> \<not> reading_done ?q"
    by simp
  from run_one_example obtain p r where p:
    "exec [A_start_parser, A_worker, A_worker, A_worker, A_worker, A_worker, A_worker]
       (parser_on [(Some [7, 8], 2, 1)]) = Done p"
    "\<not> parsing_done p" "number_of_vectors_read p = 0" "number_of_vectors_parsed p = 1"
    "examples_ring p = Some r" "READING \<notin> set (map state (slots r))"
    "read_idx r mod length (slots r) = 0"
    by (elim exE conjE) (rule that)
  have j: "\<not> joinable (parse_thread (InputParser_ctor raw_parser))"
    by (simp add: InputParser_ctor_def joinable_def)
  from retrieve_example_cases [OF p(1) [unfolded parser_on_def]] p(2-) j
  obtain i r' where g: "get_unused_example r = Some (i, r')" "i = 0"
    by auto
  with retrieve_example_cases [OF p(1) [unfolded parser_on_def]] p(2-)
  have "retrieve_example p =
          Done (Slot 0, p\<lparr>examples_ring := Some r',
                           number_of_vectors_read := number_of_vectors_read p + 1\<rparr>)"
    by simp
  with p have c3: "\<exists>p p'. exec [A_start_parser, A_worker, A_worker, A_worker, A_worker, A_worker, A_worker]
              (parser_on [(Some [7, 8], 2, 1)]) = Done p
          \<and> \<not> parsing_done p
          \<and> number_of_vectors_parsed p = 1 \<and> number_of_vectors_read p = 0
          \<and> retrieve_example p = Done (Slot 0, p') \<and> number_of_vectors_read p' = 1"
    by simp
  let ?acts = "[A_start_parser, A_worker, A_worker, A_worker, A_worker, A_worker,
               A_get_next_example None 0 0]"
  from run_drained obtain p pj where d: "exec ?acts (parser_on []) = Done p"
    "exec (take 6 ?acts) (parser_on []) = Done pj" "\<not> reading_done pj"
    "observes_drained (?acts ! 6) pj"
    "step (A_get_next_example None 0 0) p = Done p"
    by blast
  have "6 < length ?acts"
    by simp
  with retrieve_example_cases [OF d(1) [unfolded parser_on_def]] d(2,4)
  have "reading_done p"
    unfolding parser_on_def by blast
  with d have c4: "\<exists>p pj. exec ?acts (parser_on []) = Done p
          \<and> exec [A_start_parser, A_worker, A_worker, A_worker, A_worker, A_worker]
               (parser_on []) = Done pj
          \<and> \<not> reading_done pj
          \<and> observes_drained (A_get_next_example None 0 0) pj
          \<and> reading_done p
          \<and> step (A_get_next_example None 0 0) p = Done p"
    by auto
  from c1 c2 c3 c4 show ?thesis
    by blast
qed

lemma get_next_example_from_label_irrelevant:
  "map_outcome (\<lambda>(ret, (feature_vector, len, lab), p'). (ret, (feature_vector, len), p'))
     (get_next_example_from ex p (feature_vector, len, l1)) =
   map_outcome (\<lambda>(ret, (feature_vector, len, lab), p'). (ret, (feature_vector, len), p'))
     (get_next_example_from ex p (feature_vector, len, l2))"
  by (auto simp: get_next_example_from_def deliver_def map_outcome_def
      split: outcome.splits example_ptr.splits option.splits prod.splits)

text \<open>
  Claim C8.  The overload \<^verbatim>\<open>get_next_example(fv, length)\<close> gives the result, the
  \<^verbatim>\<open>fv\<close>, the \<^verbatim>\<open>length\<close> and the parser that \<^verbatim>\<open>get_next_example(fv, length, label)\<close>
  gives when its label is dropped, whatever label variable the latter is called with
  and whatever the uninitialised \<^verbatim>\<open>label_dummy\<close> holds.
\<close>

theorem get_next_example_unlabelled_refines:
  "get_next_example_unlabelled label_dummy p (feature_vector, len) =
   map_outcome (\<lambda>(ret, (feature_vector', len', lab'), p'). (ret, (feature_vector', len'), p'))
     (get_next_example p (feature_vector, len, lab))"
  using get_next_example_from_label_irrelevant [of Uninitialised p feature_vector len label_dummy lab]
  by (simp add: get_next_example_unlabelled_def get_next_example_def map_outcome_def
      split: outcome.splits prod.splits)

text \<open>
  Claim C5 says that once \<^verbatim>\<open>exit_parser\<close> has cleared \<^verbatim>\<open>keep_running\<close>, every
  \<^verbatim>\<open>get_next_example\<close> returns 0.  In the code a call that finds \<^verbatim>\<open>keep_running\<close>
  false at the head of its loop, on entry or when it wakes from the wait, leaves the
  loop without a \<^verbatim>\<open>return 0\<close> and goes on to \<^verbatim>\<open>fv = ex->fv\<close>, where \<^verbatim>\<open>ex\<close> is
  uninitialised (on entry) or null (after the wait); the statement after that is
  \<^verbatim>\<open>return 1\<close>.
\<close>

theorem get_next_example_after_abort:
  "get_next_example (exit_parser_cancel p) args = Failed InvalidPointer
   \<and> get_next_example_woken (exit_parser_cancel p) args = Failed InvalidPointer"
  by (simp add: get_next_example_def get_next_example_woken_def get_next_example_from_def
      exit_parser_cancel_def notify_one_def deliver_def)

subsection \<open>The counters\<close>

lemmas endless_defs =
  endless_parser_def endless_get_vector_and_label_def endless_get_vector_def
  round_trip_def after_rounds_def

lemma first_round:
  "exec (A_start_parser # round_trip) endless_parser = Done (after_rounds 1)"
  by (simp add: eval_defs endless_defs)

lemma one_round:
  "int k < INT32_MAX \<Longrightarrow> exec round_trip (after_rounds k) = Done (after_rounds (Suc k))"
  by (simp add: eval_defs endless_defs)

lemma exec_append:
  "exec (as @ bs) p =
     (case exec as p of Done q \<Rightarrow> exec bs q | Blocked \<Rightarrow> Blocked | Failed f \<Rightarrow> Failed f)"
  by (induction as arbitrary: p) (simp_all split: outcome.splits)

lemma many_rounds:
  "int (k + n) \<le> INT32_MAX \<Longrightarrow>
     exec (concat (replicate n round_trip)) (after_rounds k) = Done (after_rounds (k + n))"
proof (induction n arbitrary: k)
  case 0
  then show ?case by simp
next
  case (Suc n)
  from Suc.prems have "int k < INT32_MAX" "int (Suc k + n) \<le> INT32_MAX"
    by simp_all
  with Suc.IH [of "Suc k"] show ?case
    by (simp add: exec_append one_round)
qed

lemma last_round:
  "int k = INT32_MAX \<Longrightarrow>
     exec [A_worker, A_worker, A_worker, A_worker, A_worker, A_worker] (after_rounds k)
       = Failed SignedOverflow"
  by (simp add: eval_defs endless_defs)

text \<open>
  The counters are \<^verbatim>\<open>int32_t\<close> and are incremented without a bound.  On a source
  that never ends, the run in which the consumer takes and finalizes every example
  reaches \<^verbatim>\<open>number_of_vectors_parsed++\<close> with the counter at \<^verbatim>\<open>INT32_MAX\<close>.
\<close>

lemma counter_overflow_reached:
  "exec ((A_start_parser # round_trip) @ concat (replicate 2147483646 round_trip)
          @ [A_worker, A_worker, A_worker, A_worker, A_worker, A_worker]) endless_parser
     = Failed SignedOverflow"
proof -
  have "int (1 + 2147483646) \<le> INT32_MAX"
    by (simp add: INT32_MAX_def)
  then have "exec (concat (replicate 2147483646 round_trip)) (after_rounds 1)
      = Done (after_rounds (1 + 2147483646))"
    by (rule many_rounds)
  moreover have "int (1 + 2147483646) = INT32_MAX"
    by (simp add: INT32_MAX_def)
  ultimately show ?thesis
    using first_round last_round [of "1 + 2147483646"]
    by (simp only: exec_append outcome.case)
qed

text \<open>
  Claim C7 says that the counters never decrease and that
  \<open>number_of_vectors_read \<le> number_of_vectors_parsed \<le> N_source\<close> at every point of a
  run, where \<open>N_source\<close> is the number of examples the source produced.  In the code
  \<^verbatim>\<open>number_of_vectors_parsed\<close> counts every record the worker publishes, and the worker
  publishes a record of length 0 (claim C3): on the source of the spec's scenario 6 (one
  good example, then a record of length 0) the source has produced one example, and
  after twelve steps of the worker \<^verbatim>\<open>number_of_vectors_parsed\<close> is 2.  (The other
  way the code leaves the claim is the overflow above.)
\<close>

theorem parsed_count_exceeds_examples_produced:
  "\<exists>s. exec [A_start_parser,
            A_worker, A_worker, A_worker, A_worker, A_worker, A_worker,
            A_worker, A_worker, A_worker, A_worker, A_worker, A_worker]
        (parser_on [(Some [1], 1, 0), (Some [], 0, 5)]) = Done s
      \<and> number_of_vectors_parsed s = 2
      \<and> N_source [A_start_parser,
            A_worker, A_worker, A_worker, A_worker, A_worker, A_worker,
            A_worker, A_worker, A_worker, A_worker, A_worker, A_worker]
          (parser_on [(Some [1], 1, 0), (Some [], 0, 5)]) = 1
      \<and> \<not> number_of_vectors_parsed s
            \<le> int (N_source [A_start_parser,
                  A_worker, A_worker, A_worker, A_worker, A_worker, A_worker,
                  A_worker, A_worker, A_worker, A_worker, A_worker, A_worker]
                (parser_on [(Some [1], 1, 0), (Some [], 0, 5)]))"
  by (simp add: eval_defs)

end
